theory Spec2Isabelle
  imports Complex_Main "HOL-Library.Word"
begin

section \<open>Single-precision floating point\<close>

text \<open>
  The program computes with the C type \<^verbatim>\<open>float\<close>, which on the XMC targets is IEEE 754
  binary32 with round to nearest, ties to even. Every finite binary32 value is an integer
  multiple of \<open>2 ^ -149\<close> (the smallest subnormal), so a finite value is kept as a sign
  and a number of such units: \<open>Finite s k\<close> stands for \<open>\<plusminus> k / 2 ^ 149\<close>. The values
  that binary32 really has are those whose unit count fits a 24-bit significand
  (\<open>is_float32\<close>); both zeros exist, \<open>Finite False 0\<close> and \<open>Finite True 0\<close>.
\<close>

datatype float32 = Finite bool nat | Infinity bool | NaN

fun valof :: "float32 \<Rightarrow> real" where
  "valof (Finite s k) = (if s then - real k else real k) / 2 ^ 149"
| "valof (Infinity s) = 0"
| "valof NaN = 0"

fun is_finite :: "float32 \<Rightarrow> bool" where
  "is_finite (Finite s k) = True"
| "is_finite (Infinity s) = False"
| "is_finite NaN = False"

text \<open>Number of binary digits of a natural number.\<close>

fun bitlen :: "nat \<Rightarrow> nat" where
  "bitlen n = (if n = 0 then 0 else Suc (bitlen (n div 2)))"

declare bitlen.simps [simp del]

text \<open>
  A unit count \<open>k\<close> is a binary32 value when it is below \<open>2 ^ 128\<close> (that is
  \<open>2 ^ 277\<close> units) and has at most 24 significant bits: everything below its 24 leading
  bits is zero.
\<close>

definition representable :: "nat \<Rightarrow> bool" where
  "representable k = (k < 2 ^ 277 \<and> 2 ^ (bitlen k - 24) dvd k)"

fun is_float32 :: "float32 \<Rightarrow> bool" where
  "is_float32 (Finite s k) = representable k"
| "is_float32 (Infinity s) = True"
| "is_float32 NaN = True"

text \<open>
  Rounding. \<open>round_even p q\<close> is the integer nearest to the fraction \<open>p / q\<close>, the even one
  on a tie. \<open>round_float s p q\<close> rounds the exact magnitude \<open>p / q\<close> (in units) to
  binary32: the spacing of binary32 values around a magnitude of \<open>b\<close> bits is
  \<open>2 ^ (b - 24)\<close> units (one unit up to \<open>2 ^ 24\<close>, which covers the subnormals), and a
  rounded magnitude of \<open>2 ^ 128\<close> or more overflows to infinity.
\<close>

definition round_even :: "nat \<Rightarrow> nat \<Rightarrow> nat" where
  "round_even p q =
     (let f = p div q; r = p mod q
      in if 2 * r < q then f
         else if q < 2 * r then f + 1
         else if even f then f else f + 1)"

definition round_float :: "bool \<Rightarrow> nat \<Rightarrow> nat \<Rightarrow> float32" where
  "round_float s p q =
     (let j = bitlen (p div q) - 24;
          k = round_even p (q * 2 ^ j) * 2 ^ j
      in if 2 ^ 277 \<le> k then Infinity s else Finite s k)"

text \<open>A decimal constant of the source (\<^verbatim>\<open>0.25F\<close> is \<open>float_literal 25 100\<close>).\<close>

definition float_literal :: "nat \<Rightarrow> nat \<Rightarrow> float32" where
  "float_literal p q = round_float False (p * 2 ^ 149) q"

text \<open>Conversion of an integer (\<^verbatim>\<open>int\<close>, \<^verbatim>\<open>int32_t\<close>, \<^verbatim>\<open>unsigned\<close>) to \<^verbatim>\<open>float\<close>.\<close>

definition int_to_float :: "int \<Rightarrow> float32" where
  "int_to_float i = round_float (i < 0) (nat \<bar>i\<bar> * 2 ^ 149) 1"

fun fneg :: "float32 \<Rightarrow> float32" where
  "fneg (Finite s k) = Finite (\<not> s) k"
| "fneg (Infinity s) = Infinity (\<not> s)"
| "fneg NaN = NaN"

fun fadd :: "float32 \<Rightarrow> float32 \<Rightarrow> float32" where
  "fadd NaN y = NaN"
| "fadd x NaN = NaN"
| "fadd (Infinity s) (Infinity t) = (if s = t then Infinity s else NaN)"
| "fadd (Infinity s) (Finite t b) = Infinity s"
| "fadd (Finite s a) (Infinity t) = Infinity t"
| "fadd (Finite s a) (Finite t b) =
     (if s = t then round_float s (a + b) 1
      else if a = b then Finite False 0
      else if b < a then round_float s (a - b) 1
      else round_float t (b - a) 1)"

definition fsub :: "float32 \<Rightarrow> float32 \<Rightarrow> float32" where
  "fsub x y = fadd x (fneg y)"

fun fmul :: "float32 \<Rightarrow> float32 \<Rightarrow> float32" where
  "fmul NaN y = NaN"
| "fmul x NaN = NaN"
| "fmul (Infinity s) (Infinity t) = Infinity (s \<noteq> t)"
| "fmul (Infinity s) (Finite t b) = (if b = 0 then NaN else Infinity (s \<noteq> t))"
| "fmul (Finite s a) (Infinity t) = (if a = 0 then NaN else Infinity (s \<noteq> t))"
| "fmul (Finite s a) (Finite t b) = round_float (s \<noteq> t) (a * b) (2 ^ 149)"

fun fdiv :: "float32 \<Rightarrow> float32 \<Rightarrow> float32" where
  "fdiv NaN y = NaN"
| "fdiv x NaN = NaN"
| "fdiv (Infinity s) (Infinity t) = NaN"
| "fdiv (Infinity s) (Finite t b) = Infinity (s \<noteq> t)"
| "fdiv (Finite s a) (Infinity t) = Finite (s \<noteq> t) 0"
| "fdiv (Finite s a) (Finite t b) =
     (if b = 0 then (if a = 0 then NaN else Infinity (s \<noteq> t))
      else round_float (s \<noteq> t) (a * 2 ^ 149) b)"

text \<open>The comparison \<^verbatim>\<open>x < y\<close>: false when an operand is a NaN, and the two zeros are equal.\<close>

fun flt :: "float32 \<Rightarrow> float32 \<Rightarrow> bool" where
  "flt NaN y = False"
| "flt x NaN = False"
| "flt (Infinity s) (Infinity t) = (s \<and> \<not> t)"
| "flt (Infinity s) (Finite t b) = s"
| "flt (Finite s a) (Infinity t) = (\<not> t)"
| "flt (Finite s a) (Finite t b) =
     ((if s then - int a else int a) < (if t then - int b else int b))"

text \<open>
  Conversion of a \<^verbatim>\<open>float\<close> to \<^verbatim>\<open>int\<close> discards the fraction (truncation toward zero).
  The C standard leaves the conversion undefined when the truncated value does not fit
  the integer type; the model follows the XMC targets, where the conversion
  (\<^verbatim>\<open>__aeabi_f2iz\<close>, or \<^verbatim>\<open>VCVT\<close> with a floating-point unit) saturates and turns a NaN
  into 0, and where a conversion to \<^verbatim>\<open>int16_t\<close> converts to 32 bits and keeps the low 16.
\<close>

definition float_to_int32 :: "float32 \<Rightarrow> 32 word" where
  "float_to_int32 x =
     (case x of
        NaN \<Rightarrow> 0
      | Infinity s \<Rightarrow> word_of_int (if s then - (2 ^ 31) else 2 ^ 31 - 1)
      | Finite s k \<Rightarrow>
          word_of_int (if s then max (- (2 ^ 31)) (- int (k div 2 ^ 149))
                       else min (2 ^ 31 - 1) (int (k div 2 ^ 149))))"

definition float_to_int16 :: "float32 \<Rightarrow> 16 word" where
  "float_to_int16 x = ucast (float_to_int32 x)"

section \<open>The fixed-point conversions of \<^verbatim>\<open>main.c\<close>\<close>

text \<open>
  \<^verbatim>\<open>INPUT_NUM\<close> is \<^verbatim>\<open>(0.25F)\<close> and \<^verbatim>\<open>STRING_BUF_SIZE\<close> is \<^verbatim>\<open>(32)\<close>. The constants
  \<^verbatim>\<open>0x8000\<close> and \<^verbatim>\<open>0x80000000\<close> are integers (the second one unsigned), converted to
  \<^verbatim>\<open>float\<close> by the arithmetic they stand in.
\<close>

definition INPUT_NUM :: float32 where
  "INPUT_NUM = float_literal 25 100"

definition STRING_BUF_SIZE :: "8 word" where
  "STRING_BUF_SIZE = 32"

definition q15_to_float :: "16 word \<Rightarrow> float32" where
  "q15_to_float a = fdiv (int_to_float (sint a)) (int_to_float 0x8000)"

definition q31_to_float :: "32 word \<Rightarrow> float32" where
  "q31_to_float a = fdiv (int_to_float (sint a)) (int_to_float 0x80000000)"

definition float_to_q15 :: "float32 \<Rightarrow> 32 word" where
  "float_to_q15 a =
     scast (float_to_int16 (fadd (fmul a (int_to_float 0x8000)) (float_literal 5 10)))"

definition float_to_q31 :: "float32 \<Rightarrow> 32 word" where
  "float_to_q31 a =
     float_to_int32 (fadd (fmul a (int_to_float 0x80000000)) (float_literal 5 10))"

section \<open>Formatted output\<close>

text \<open>
  The conversions of \<^verbatim>\<open>printf\<close> that the program uses: \<^verbatim>\<open>%d\<close> (and \<^verbatim>\<open>%ld\<close>, the same on
  a 32-bit \<^verbatim>\<open>long\<close>) prints a signed decimal number, \<^verbatim>\<open>%03d\<close> pads it with zeros to a
  width of at least 3 (the sign counts in the width). \<^verbatim>\<open>snprintf\<close> stores at most
  \<open>n - 1\<close> characters of the text and a terminating zero, and nothing when \<open>n\<close> is 0;
  the model returns the string that the buffer holds afterwards.
\<close>

definition digit_char :: "nat \<Rightarrow> char" where
  "digit_char d = ''0123456789'' ! d"

fun decimal :: "nat \<Rightarrow> string" where
  "decimal n = (if n < 10 then [digit_char n] else decimal (n div 10) @ [digit_char (n mod 10)])"

declare decimal.simps [simp del]

definition zero_pad :: "nat \<Rightarrow> string \<Rightarrow> string" where
  "zero_pad w s = replicate (w - length s) (CHR ''0'') @ s"

definition printf_d :: "int \<Rightarrow> string" where
  "printf_d i = (if i < 0 then CHR ''-'' # decimal (nat (- i)) else decimal (nat i))"

definition printf_03d :: "int \<Rightarrow> string" where
  "printf_03d i =
     (if i < 0 then CHR ''-'' # zero_pad 2 (decimal (nat (- i))) else zero_pad 3 (decimal (nat i)))"

definition snprintf :: "string \<Rightarrow> nat \<Rightarrow> string \<Rightarrow> string" where
  "snprintf buffer n text = (if n = 0 then buffer else take (n - 1) text)"

text \<open>
  \<^verbatim>\<open>float_to_string\<close>. The first argument is what the buffer holds before the call, the
  result what it holds after it.
\<close>

definition float_to_string :: "string \<Rightarrow> 8 word \<Rightarrow> float32 \<Rightarrow> string" where
  "float_to_string string_buffer buf_size number0 =
     (let is_negative = flt number0 (int_to_float 0);
          number = (if is_negative then fneg number0 else number0);
          integral_part = float_to_int32 number;
          decimal_part =
            float_to_int32 (fmul (fsub number (int_to_float (sint integral_part)))
              (int_to_float 1000))
      in if is_negative
         then snprintf string_buffer (unat buf_size)
                (''-'' @ printf_d (sint integral_part) @ ''.'' @ printf_03d (sint decimal_part))
         else snprintf string_buffer (unat buf_size)
                (printf_d (sint integral_part) @ ''.'' @ printf_03d (sint decimal_part)))"

section \<open>Square roots and the driver\<close>

text \<open>
  Modelled from the spec: \<^verbatim>\<open>sqrtf\<close> is the C library's real-valued square root, an external
  collaborator that is not part of the sources. IEEE 754 asks for the correctly rounded root,
  computed here from the integer square root \<open>isqrt\<close> of the operand in units: an inexact
  root lies strictly between \<open>r\<close> and \<open>r + 1\<close> and rounds as \<open>r + 1/2\<close> does.
\<close>

fun isqrt :: "nat \<Rightarrow> nat" where
  "isqrt n =
     (if n < 4 then (if n = 0 then 0 else 1)
      else (let r = 2 * isqrt (n div 4) in if (r + 1) * (r + 1) \<le> n then r + 1 else r))"

declare isqrt.simps [simp del]

fun sqrtf :: "float32 \<Rightarrow> float32" where
  "sqrtf NaN = NaN"
| "sqrtf (Infinity s) = (if s then NaN else Infinity False)"
| "sqrtf (Finite s k) =
     (if k = 0 then Finite s 0
      else if s then NaN
      else (let r = isqrt (k * 2 ^ 149)
            in if r * r = k * 2 ^ 149 then round_float False r 1
               else round_float False (2 * r + 1) 2))"

text \<open>
  \<^verbatim>\<open>main\<close>, from the first \<^verbatim>\<open>printf\<close> on: the result is the text sent to the UART. The
  hardware square root \<^verbatim>\<open>XMC_MATH_CORDIC_Q31_Sqrt\<close> and the library's \<^verbatim>\<open>sqrtf\<close> are
  parameters, and so is what the uninitialised \<^verbatim>\<open>string_buff\<close> holds at first. The board
  initialisation that precedes the output is not modelled: when it fails, \<^verbatim>\<open>CY_ASSERT(0)\<close>
  stops the program before anything is printed.
\<close>

definition CRLF :: string where
  "CRLF = [CHR 0x0D, CHR 0x0A]"

definition banner :: string where
  "banner =
     [CHR 0x1B] @ ''[2J'' @ [CHR 0x1B] @ ''[;H'' @
     ''==============================================================='' @ CRLF @
     ''XMC MCU: MATH SQRT example'' @ CRLF @
     ''==============================================================='' @ CRLF @ [CHR 0x0A]"

definition main :: "(32 word \<Rightarrow> 32 word) \<Rightarrow> (float32 \<Rightarrow> float32) \<Rightarrow> string \<Rightarrow> string" where
  "main XMC_MATH_CORDIC_Q31_Sqrt sqrtf_lib string_buff0 =
     (let sqr_root_cordic_q31 = XMC_MATH_CORDIC_Q31_Sqrt (float_to_q31 INPUT_NUM);
          uart1 = banner @ ''Sqr_root_CORDIC_Q31 = '' @ printf_d (sint sqr_root_cordic_q31)
                    @ '' '' @ CRLF;
          sqr_root_cordic_float = q31_to_float sqr_root_cordic_q31;
          string_buff1 = float_to_string string_buff0 STRING_BUF_SIZE sqr_root_cordic_float;
          uart2 = uart1 @ ''Sqr_root_CORDIC_float = '' @ string_buff1 @ CRLF;
          sqr_root_software_float = sqrtf_lib INPUT_NUM;
          string_buff2 = float_to_string string_buff1 STRING_BUF_SIZE sqr_root_software_float;
          uart3 = uart2 @ ''Sqr_root_Software_float = '' @ string_buff2 @ CRLF
      in uart3)"

section \<open>Notions used to state the properties\<close>

text \<open>A decimal digit, and a text with exactly one decimal point followed by exactly 3 digits.\<close>

definition is_digit :: "char \<Rightarrow> bool" where
  "is_digit c = (c \<in> set ''0123456789'')"

definition decimal_shape :: "string \<Rightarrow> bool" where
  "decimal_shape s =
     (count_list s (CHR ''.'') = 1 \<and>
      (let frac = drop 1 (dropWhile (\<lambda>c. c \<noteq> CHR ''.'') s)
       in length frac = 3 \<and> list_all is_digit frac))"

text \<open>Truncation of a real number toward zero.\<close>

definition truncate :: "real \<Rightarrow> int" where
  "truncate r = (if r < 0 then - \<lfloor>- r\<rfloor> else \<lfloor>r\<rfloor>)"

text \<open>The lines of a text: the pieces between line feeds.\<close>

fun split_lines :: "string \<Rightarrow> string list" where
  "split_lines [] = [[]]"
| "split_lines (c # cs) =
     (if c = CHR 0x0A then [] # split_lines cs
      else (case split_lines cs of [] \<Rightarrow> [[c]] | l # ls \<Rightarrow> (c # l) # ls))"

lemma bitlen_0 [simp]: "bitlen 0 = 0"
  by (simp add: bitlen.simps)

lemma bitlen_pos: "0 < n \<Longrightarrow> bitlen n = Suc (bitlen (n div 2))"
  by (subst bitlen.simps) simp

lemma bitlen_less: "n < 2 ^ bitlen n"
proof (induction n rule: bitlen.induct)
  case (1 n)
  show ?case
  proof (cases "n = 0")
    case True
    then show ?thesis by simp
  next
    case False
    with 1 have "n div 2 < 2 ^ bitlen (n div 2)" by simp
    then have "n < 2 * 2 ^ bitlen (n div 2)" by linarith
    with False show ?thesis by (simp add: bitlen_pos)
  qed
qed

lemma bitlen_ge: "0 < n \<Longrightarrow> 2 ^ (bitlen n - 1) \<le> n"
proof (induction n rule: bitlen.induct)
  case (1 n)
  show ?case
  proof (cases "n div 2 = 0")
    case True
    with 1 have "n = 1" by linarith
    then show ?thesis by (simp add: bitlen_pos)
  next
    case False
    with 1 have "2 ^ (bitlen (n div 2) - 1) \<le> n div 2" by simp
    moreover from False have "0 < bitlen (n div 2)" by (simp add: bitlen_pos)
    ultimately have "2 ^ bitlen (n div 2) \<le> 2 * (n div 2)"
      by (cases "bitlen (n div 2)") simp_all
    then have "2 ^ bitlen (n div 2) \<le> n" by linarith
    with 1 show ?thesis by (simp add: bitlen_pos)
  qed
qed

lemma bitlen_le_iff: "bitlen n \<le> b \<longleftrightarrow> n < 2 ^ b"
proof
  assume "bitlen n \<le> b"
  then have "(2::nat) ^ bitlen n \<le> 2 ^ b" by simp
  with bitlen_less [of n] show "n < 2 ^ b" by linarith
next
  assume lt: "n < 2 ^ b"
  show "bitlen n \<le> b"
  proof (cases "n = 0")
    case True
    then show ?thesis by simp
  next
    case False
    then have "0 < n" by simp
    from bitlen_ge [OF this] lt have "(2::nat) ^ (bitlen n - 1) < 2 ^ b" by (rule le_less_trans)
    then have "bitlen n - 1 < b" by (simp only: power_strict_increasing_iff one_less_numeral_iff semiring_norm)
    then show ?thesis by linarith
  qed
qed

lemma bitlen_eqI: "2 ^ b \<le> n \<Longrightarrow> n < 2 ^ Suc b \<Longrightarrow> bitlen n = Suc b"
proof -
  assume lo: "2 ^ b \<le> n" and hi: "n < 2 ^ Suc b"
  from hi have "bitlen n \<le> Suc b" using bitlen_le_iff [of n "Suc b"] by blast
  moreover from lo have "\<not> n < 2 ^ b" by simp
  then have "\<not> bitlen n \<le> b" using bitlen_le_iff [of n b] by blast
  ultimately show ?thesis by linarith
qed

lemma bitlen_mono: "m \<le> n \<Longrightarrow> bitlen m \<le> bitlen n"
  using bitlen_less [of n] by (simp add: bitlen_le_iff)

lemma round_even_bounds:
  assumes "0 < q"
  shows "2 * (round_even p q * q) \<le> 2 * p + q" and "2 * p \<le> 2 * (round_even p q * q) + q"
proof -
  define f where "f = p div q"
  define r where "r = p mod q"
  have p: "p = f * q + r" by (simp add: f_def r_def)
  have r: "r < q" using assms by (simp add: r_def)
  have m: "round_even p q = f \<and> 2 * r \<le> q \<or> round_even p q = f + 1 \<and> q \<le> 2 * r"
    by (auto simp: round_even_def Let_def f_def r_def)
  from m p r show "2 * (round_even p q * q) \<le> 2 * p + q"
    by (auto simp: algebra_simps)
  from m p r show "2 * p \<le> 2 * (round_even p q * q) + q"
    by (auto simp: algebra_simps)
qed

lemma round_even_mult: "0 < q \<Longrightarrow> round_even (n * q) q = n"
  by (simp add: round_even_def)

lemma round_even_le:
  assumes "0 < q" and "p \<le> n * q"
  shows "round_even p q \<le> n"
proof (cases "p = n * q")
  case True
  with assms show ?thesis by (simp add: round_even_mult)
next
  case False
  with assms have "p < n * q" by simp
  then have "p div q < n" using assms(1) by (simp add: div_less_iff_less_mult)
  moreover have "round_even p q \<le> p div q + 1"
    by (simp add: round_even_def Let_def)
  ultimately show ?thesis by linarith
qed

lemma round_even_ge:
  assumes "0 < q" and "n * q \<le> p"
  shows "n \<le> round_even p q"
proof -
  from assms have "n \<le> p div q" by (simp add: less_eq_div_iff_mult_less_eq)
  moreover have "p div q \<le> round_even p q"
    by (simp add: round_even_def Let_def)
  ultimately show ?thesis by linarith
qed

lemma round_float_error:
  assumes q: "0 < q" and small: "p < 2 ^ 276 * q"
  obtains k where "round_float s p q = Finite s k"
    and "2 ^ (bitlen (p div q) - 24) dvd k"
    and "2 * (k * q) \<le> 2 * p + q * 2 ^ (bitlen (p div q) - 24)"
    and "2 * p \<le> 2 * (k * q) + q * 2 ^ (bitlen (p div q) - 24)"
    and "k \<le> 2 ^ (24 + (bitlen (p div q) - 24))"
proof -
  define j where "j = bitlen (p div q) - 24"
  define m where "m = round_even p (q * 2 ^ j)"
  have qj: "0 < q * 2 ^ j" using q by simp
  have "p div q < 2 ^ bitlen (p div q)" by (rule bitlen_less)
  also have "\<dots> \<le> 2 ^ (24 + j)" by (simp add: j_def)
  finally have "p div q < 2 ^ (24 + j)" .
  then have "p < 2 ^ (24 + j) * q" using q by (simp add: div_less_iff_less_mult)
  then have "p \<le> 2 ^ 24 * (q * 2 ^ j)" by (simp add: power_add mult_ac)
  then have m24: "m \<le> 2 ^ 24" unfolding m_def using qj by (rule round_even_le [rotated])
  from small have "p div q < 2 ^ 276" using q by (simp add: div_less_iff_less_mult)
  then have "bitlen (p div q) \<le> 276" by (simp add: bitlen_le_iff)
  then have "24 + j \<le> 276" by (simp add: j_def)
  then have "(2::nat) ^ (24 + j) \<le> 2 ^ 276" by (simp only: power_increasing_iff one_less_numeral_iff semiring_norm)
  moreover from m24 have "m * 2 ^ j \<le> 2 ^ 24 * 2 ^ j" by (rule mult_le_mono1)
  then have "m * 2 ^ j \<le> 2 ^ (24 + j)" by (simp only: power_add)
  ultimately have k: "m * 2 ^ j \<le> 2 ^ 276" by (rule le_trans [rotated])
  have "(2::nat) ^ 276 < 2 ^ 277" by simp
  with k have "\<not> 2 ^ 277 \<le> m * 2 ^ j" by linarith
  then have 1: "round_float s p q = Finite s (m * 2 ^ j)"
    by (simp add: round_float_def Let_def j_def m_def)
  have 2: "2 ^ j dvd m * 2 ^ j" by simp
  from round_even_bounds [OF qj, of p]
  have 3: "2 * (m * 2 ^ j * q) \<le> 2 * p + q * 2 ^ j" and 4: "2 * p \<le> 2 * (m * 2 ^ j * q) + q * 2 ^ j"
    by (simp_all add: m_def mult_ac)
  from m24 have 5: "m * 2 ^ j \<le> 2 ^ (24 + j)" by (simp add: power_add)
  from 1 2 3 4 5 show thesis unfolding j_def by (rule that)
qed

lemma representable_dvd: "representable k \<Longrightarrow> 2 ^ (bitlen k - 24) dvd k"
  by (simp add: representable_def)

lemma round_float_exact:
  assumes q: "0 < q" and k: "representable k"
  shows "round_float s (k * q) q = Finite s k"
proof -
  define j where "j = bitlen k - 24"
  from k have "2 ^ j dvd k" by (simp add: representable_def j_def)
  then obtain c where c: "k = c * 2 ^ j" by (auto simp: dvd_def mult.commute)
  have "round_even (k * q) (q * 2 ^ j) = c"
    using round_even_mult [of "q * 2 ^ j" c] q by (simp add: c mult_ac)
  moreover from k have "\<not> 2 ^ 277 \<le> k" by (simp add: representable_def)
  ultimately show ?thesis using q
    by (simp add: round_float_def Let_def j_def [symmetric] c [symmetric])
qed

lemma representableI:
  assumes "k = m * 2 ^ i" and "m \<le> 2 ^ 24" and "k < 2 ^ 277"
  shows "representable k"
proof -
  have "k < 2 ^ (25 + i)"
  proof -
    from assms(2) have "m * 2 ^ i \<le> 2 ^ 24 * 2 ^ i" by simp
    also have "\<dots> < 2 ^ (25 + i)" by (simp add: power_add)
    finally show ?thesis by (simp add: assms(1))
  qed
  show ?thesis
  proof (cases "m = 2 ^ 24")
    case True
    then have "k = 2 ^ (24 + i)" by (simp add: assms(1) power_add)
    then have "bitlen k = Suc (24 + i)" by (intro bitlen_eqI) simp_all
    then have "bitlen k - 24 = Suc i" by simp
    moreover have "(2::nat) ^ Suc i dvd 2 ^ (24 + i)" by (rule le_imp_power_dvd) simp
    ultimately show ?thesis using assms(3) \<open>k = 2 ^ (24 + i)\<close> by (simp add: representable_def)
  next
    case False
    with assms(2) have "m < 2 ^ 24" by simp
    then have "m * 2 ^ i < 2 ^ 24 * 2 ^ i" by simp
    then have "k < 2 ^ (24 + i)" by (simp add: assms(1) power_add)
    then have "bitlen k \<le> 24 + i" by (simp add: bitlen_le_iff)
    then have "bitlen k - 24 \<le> i" by simp
    then have "(2::nat) ^ (bitlen k - 24) dvd 2 ^ i" by (rule le_imp_power_dvd)
    then have "2 ^ (bitlen k - 24) dvd k" by (simp add: assms(1))
    with assms(3) show ?thesis by (simp add: representable_def)
  qed
qed

lemma representable_round_float:
  assumes "0 < q" and "round_float s p q = Finite t k"
  shows "representable k"
proof -
  define j where "j = bitlen (p div q) - 24"
  define m where "m = round_even p (q * 2 ^ j)"
  have qj: "0 < q * 2 ^ j" using assms(1) by simp
  have "p div q < 2 ^ bitlen (p div q)" by (rule bitlen_less)
  also have "\<dots> \<le> 2 ^ (24 + j)" by (simp add: j_def)
  finally have "p < 2 ^ (24 + j) * q" using assms(1) by (simp add: div_less_iff_less_mult)
  then have "p \<le> 2 ^ 24 * (q * 2 ^ j)" by (simp add: power_add mult_ac)
  then have m24: "m \<le> 2 ^ 24" unfolding m_def using qj by (rule round_even_le [rotated])
  from assms(2) have "k = m * 2 ^ j" and "k < 2 ^ 277"
    by (auto simp: round_float_def Let_def j_def m_def split: if_splits)
  with m24 show ?thesis by (intro representableI [of k m j])
qed

lemma round_even_scale:
  assumes "0 < c"
  shows "round_even (p * c) (q * c) = round_even p q"
proof -
  have d: "(p * c) div (q * c) = p div q" using assms by simp
  have m: "(p * c) mod (q * c) = (p mod q) * c" using assms by (simp add: mult_mod_left mult.commute)
  have 1: "2 * (p mod q * c) < q * c \<longleftrightarrow> 2 * (p mod q) < q"
    using assms by (metis mult.assoc mult_less_cancel2)
  have 2: "q * c < 2 * (p mod q * c) \<longleftrightarrow> q < 2 * (p mod q)"
    using assms by (metis mult.assoc mult_less_cancel2)
  show ?thesis
    unfolding round_even_def Let_def d m 1 2 ..
qed

lemma round_float_scale:
  assumes "0 < c"
  shows "round_float s (p * c) (q * c) = round_float s p q"
proof -
  have d: "(p * c) div (q * c) = p div q" using assms by simp
  have "round_even (p * c) (q * c * 2 ^ j) = round_even p (q * 2 ^ j)" for j
    using round_even_scale [OF assms, of p "q * 2 ^ j"] by (simp add: mult_ac)
  then show ?thesis
    unfolding round_float_def Let_def d by simp
qed

lemma representable_0 [simp]: "representable 0"
  by (simp add: representable_def)

lemma round_float_le:
  assumes q: "0 < q" and N: "representable N" and le: "p \<le> N * q"
  obtains k where "round_float s p q = Finite s k" and "k \<le> N"
proof -
  define j where "j = bitlen (p div q) - 24"
  from le q have "p div q \<le> N" by (metis div_le_mono div_mult_self_is_m)
  then have "bitlen (p div q) \<le> bitlen N" by (rule bitlen_mono)
  then have "j \<le> bitlen N - 24" by (simp add: j_def)
  then have "(2::nat) ^ j dvd 2 ^ (bitlen N - 24)" by (rule le_imp_power_dvd)
  with N have "2 ^ j dvd N" by (auto simp: representable_def dest: dvd_trans)
  then obtain c where c: "N = c * 2 ^ j" by (auto simp: dvd_def mult.commute)
  from le have "p \<le> c * (q * 2 ^ j)" by (simp add: c mult_ac)
  with q have "round_even p (q * 2 ^ j) \<le> c" by (intro round_even_le) simp_all
  then have k: "round_even p (q * 2 ^ j) * 2 ^ j \<le> N" by (simp add: c)
  moreover from N have "N < 2 ^ 277" by (simp add: representable_def)
  ultimately have "\<not> 2 ^ 277 \<le> round_even p (q * 2 ^ j) * 2 ^ j" by linarith
  then have "round_float s p q = Finite s (round_even p (q * 2 ^ j) * 2 ^ j)"
    by (simp add: round_float_def Let_def j_def)
  then show thesis using k by (rule that)
qed

lemma representable_parts:
  assumes "representable k"
  shows "representable (k div 2 ^ i * 2 ^ i)" and "representable (k mod 2 ^ i)"
proof -
  define j where "j = bitlen k - 24"
  from assms have lt: "k < 2 ^ 277" and "2 ^ j dvd k" by (simp_all add: representable_def j_def)
  then obtain c where c: "k = c * 2 ^ j" by (auto simp: dvd_def mult.commute)
  have "k < 2 ^ bitlen k" by (rule bitlen_less)
  also have "\<dots> \<le> 2 ^ (24 + j)" by (simp add: j_def)
  finally have "c * 2 ^ j < 2 ^ 24 * 2 ^ j" by (simp add: c power_add)
  then have c24: "c < 2 ^ 24" by simp
  have le1: "k div 2 ^ i * 2 ^ i \<le> k" by simp
  have le2: "k mod 2 ^ i \<le> k" by simp
  show "representable (k div 2 ^ i * 2 ^ i)"
  proof (cases "i \<le> j")
    case True
    then have "(2::nat) ^ i dvd 2 ^ j" by (rule le_imp_power_dvd)
    then have "2 ^ i dvd k" by (simp add: c)
    then have "k div 2 ^ i * 2 ^ i = k" by simp
    with assms show ?thesis by simp
  next
    case False
    then have i: "i = j + (i - j)" by simp
    have "k div 2 ^ i = c div 2 ^ (i - j)"
      by (subst i, simp only: c power_add) (simp add: div_mult2_eq [symmetric] mult.commute)
    moreover have "c div 2 ^ (i - j) \<le> 2 ^ 24" using c24 by (meson div_le_dividend le_trans less_imp_le)
    ultimately show ?thesis using le1 lt
      by (intro representableI [of _ "c div 2 ^ (i - j)" i]) simp_all
  qed
  show "representable (k mod 2 ^ i)"
  proof (cases "i \<le> j")
    case True
    then have "(2::nat) ^ i dvd 2 ^ j" by (rule le_imp_power_dvd)
    then have "2 ^ i dvd k" by (simp add: c)
    then have "k mod 2 ^ i = 0" by simp
    then show ?thesis by simp
  next
    case False
    then have i: "i = j + (i - j)" by simp
    have "k mod 2 ^ i = (c mod 2 ^ (i - j)) * 2 ^ j"
      by (subst i, simp only: c power_add) (simp add: mult_mod_left mult.commute)
    moreover have "c mod 2 ^ (i - j) \<le> 2 ^ 24" using c24 by (meson mod_less_eq_dividend le_trans less_imp_le)
    ultimately show ?thesis using le2 lt
      by (intro representableI [of _ "c mod 2 ^ (i - j)" j]) simp_all
  qed
qed

lemma int_to_float_nat:
  assumes "representable (n * 2 ^ 149)"
  shows "int_to_float (int n) = Finite False (n * 2 ^ 149)"
  using round_float_exact [of 1 "n * 2 ^ 149" False] assms by (simp add: int_to_float_def)

lemma sint_word32:
  "- (2 ^ 31) \<le> i \<Longrightarrow> i < 2 ^ 31 \<Longrightarrow> sint (word_of_int i :: 32 word) = i"
  by (simp add: sint_sbintrunc' signed_take_bit_int_eq_self)

lemma int_to_float_0: "int_to_float 0 = Finite False 0"
  using round_float_exact [of 1 0 False] by (simp add: int_to_float_def)

lemma representable_1000: "representable (1000 * 2 ^ 149)"
  by (rule representableI [of _ 1000 149]) simp_all

lemma int_to_float_1000: "int_to_float 1000 = Finite False (1000 * 2 ^ 149)"
  using int_to_float_nat [OF representable_1000] by simp

lemma sint_float_to_int32_nonneg:
  assumes "k div 2 ^ 149 < 2 ^ 31"
  shows "sint (float_to_int32 (Finite False k)) = int (k div 2 ^ 149)"
proof -
  from assms have "int (k div 2 ^ 149) < 2 ^ 31"
    by (metis of_nat_less_iff of_nat_numeral of_nat_power)
  then have "min (2 ^ 31 - 1) (int (k div 2 ^ 149)) = int (k div 2 ^ 149)" by simp
  moreover have "sint (word_of_int (int (k div 2 ^ 149)) :: 32 word) = int (k div 2 ^ 149)"
    using \<open>int (k div 2 ^ 149) < 2 ^ 31\<close> by (intro sint_word32) simp_all
  ultimately show ?thesis by (simp only: float_to_int32_def float32.case if_False)
qed

lemma representable_below_one:
  assumes "representable f" and "f < 2 ^ 149"
  shows "f + 2 ^ 125 \<le> 2 ^ 149"
proof (cases "bitlen f \<le> 148")
  case True
  then have "f < 2 ^ 148" by (simp only: bitlen_le_iff)
  then show ?thesis by simp
next
  case False
  moreover from assms(2) have "bitlen f \<le> 149" by (simp only: bitlen_le_iff)
  ultimately have "bitlen f - 24 = 125" by simp
  with assms(1) have "2 ^ 125 dvd f" by (simp add: representable_def)
  then obtain c where c: "f = c * 2 ^ 125" by (auto simp: dvd_def mult.commute)
  with assms(2) have "c * 2 ^ 125 < 2 ^ 24 * 2 ^ 125" by simp
  then have "c < 2 ^ 24" by (simp only: mult_less_cancel2)
  then have "c + 1 \<le> 2 ^ 24" by simp
  then have "(c + 1) * 2 ^ 125 \<le> 2 ^ 24 * 2 ^ 125" by (rule mult_le_mono1)
  then show ?thesis by (simp add: c)
qed

lemma thousandths:
  assumes "representable f" and "f < 2 ^ 149"
  obtains R where "round_float False (f * 1000) 1 = Finite False R" and "R < 1000 * 2 ^ 149"
proof -
  from representable_below_one [OF assms] have f: "f * 1000 + 1000 * 2 ^ 125 \<le> 1000 * 2 ^ 149"
    by simp
  then have "f * 1000 < 2 ^ 159" by simp
  then have lt: "f * 1000 < 2 ^ 276 * 1" by simp
  have "bitlen (f * 1000) \<le> 159" using \<open>f * 1000 < 2 ^ 159\<close> by (simp only: bitlen_le_iff)
  then have "bitlen (f * 1000 div 1) - 24 \<le> 135" by simp
  then have j: "(2::nat) ^ (bitlen (f * 1000 div 1) - 24) \<le> 2 ^ 135"
    by (simp only: power_increasing_iff one_less_numeral_iff semiring_norm)
  obtain R where R: "round_float False (f * 1000) 1 = Finite False R"
    and "2 * (R * 1) \<le> 2 * (f * 1000) + 1 * 2 ^ (bitlen (f * 1000 div 1) - 24)"
    using round_float_error [OF zero_less_one lt, of False] by blast
  with j have "2 * R \<le> 2 * (f * 1000) + 2 ^ 135" by simp
  with f have "R < 1000 * 2 ^ 149" by simp
  with R show thesis by (rule that)
qed

lemma float_to_string_nonneg:
  assumes k: "representable k" and r: "k < 2 ^ 180"
  shows "\<exists>R. round_float False (k mod 2 ^ 149 * 1000) 1 = Finite False R \<and> R < 1000 * 2 ^ 149 \<and>
    (\<forall>b n. float_to_string b n (Finite False k) =
      snprintf b (unat n) (printf_d (int (k div 2 ^ 149)) @ ''.'' @ printf_03d (int (R div 2 ^ 149)))) \<and>
    (\<forall>b n. 0 < k \<longrightarrow> float_to_string b n (Finite True k) =
      snprintf b (unat n) (''-'' @ printf_d (int (k div 2 ^ 149)) @ ''.'' @ printf_03d (int (R div 2 ^ 149))))"
proof -
  define n0 where "n0 = k div 2 ^ 149"
  define f where "f = k mod 2 ^ 149"
  have kf: "k = n0 * 2 ^ 149 + f" by (simp add: n0_def f_def)
  have f149: "f < 2 ^ 149" by (simp add: f_def)
  have repf: "representable f" unfolding f_def using k by (rule representable_parts)
  have repn: "representable (n0 * 2 ^ 149)" unfolding n0_def using k by (rule representable_parts)
  from r have "k < 2 ^ 31 * 2 ^ 149" by simp
  then have n31: "n0 < 2 ^ 31" unfolding n0_def by (simp only: div_less_iff_less_mult zero_less_power zero_less_numeral)
  obtain R where R: "round_float False (f * 1000) 1 = Finite False R" and R1000: "R < 1000 * 2 ^ 149"
    using thousandths [OF repf f149] by blast
  have A: "flt (Finite False k) (int_to_float 0) = False"
    by (simp add: int_to_float_0)
  have A': "flt (Finite True k) (int_to_float 0) = True" if "0 < k"
    using that by (simp add: int_to_float_0)
  have B: "sint (float_to_int32 (Finite False k)) = int n0"
    unfolding n0_def using n31 [unfolded n0_def] by (rule sint_float_to_int32_nonneg)
  have C: "int_to_float (int n0) = Finite False (n0 * 2 ^ 149)"
    using repn by (rule int_to_float_nat)
  have D: "fsub (Finite False k) (Finite False (n0 * 2 ^ 149)) = Finite False f"
  proof (cases "f = 0")
    case True
    then show ?thesis by (simp add: fsub_def kf)
  next
    case False
    moreover have "round_float False f 1 = Finite False f"
      using round_float_exact [OF zero_less_one repf, of False] by simp
    ultimately show ?thesis by (simp add: fsub_def kf)
  qed
  have E: "fmul (Finite False f) (int_to_float 1000) = Finite False R"
    using round_float_scale [of "2 ^ 149" False "f * 1000" 1] R
    by (simp add: int_to_float_1000 mult_ac)
  have "R div 2 ^ 149 < 1000" using R1000
    by (simp only: div_less_iff_less_mult zero_less_power zero_less_numeral)
  then have "R div 2 ^ 149 < 2 ^ 31" by simp
  then have G: "sint (float_to_int32 (Finite False R)) = int (R div 2 ^ 149)"
    by (rule sint_float_to_int32_nonneg)
  have 1: "round_float False (k mod 2 ^ 149 * 1000) 1 = Finite False R"
    using R by (simp add: f_def)
  have 3: "float_to_string b n (Finite False k) =
      snprintf b (unat n) (printf_d (int (k div 2 ^ 149)) @ ''.'' @ printf_03d (int (R div 2 ^ 149)))" for b n
    unfolding float_to_string_def Let_def A if_False B C D E G n0_def [symmetric] ..
  have 4: "float_to_string b n (Finite True k) =
      snprintf b (unat n) (''-'' @ printf_d (int (k div 2 ^ 149)) @ ''.'' @ printf_03d (int (R div 2 ^ 149)))"
    if "0 < k" for b n
    unfolding float_to_string_def Let_def A' [OF that] if_True fneg.simps not_True_eq_False B C D E G n0_def [symmetric] ..
  from 1 R1000 3 4 show ?thesis by blast
qed

lemma is_digit_digit_char: "d < 10 \<Longrightarrow> is_digit (digit_char d)"
proof -
  assume "d < 10"
  then have "d \<in> {0, 1, 2, 3, 4, 5, 6, 7, 8, 9}" by auto
  then show ?thesis by (auto simp: is_digit_def digit_char_def)
qed

lemma decimal_small: "n < 10 \<Longrightarrow> decimal n = [digit_char n]"
  by (subst decimal.simps) simp

lemma decimal_large: "10 \<le> n \<Longrightarrow> decimal n = decimal (n div 10) @ [digit_char (n mod 10)]"
  by (subst decimal.simps) simp

lemma digits_decimal: "list_all is_digit (decimal n)"
proof (induction n rule: decimal.induct)
  case (1 n)
  show ?case
  proof (cases "n < 10")
    case True
    then show ?thesis by (simp add: decimal_small is_digit_digit_char)
  next
    case False
    with 1 have "list_all is_digit (decimal (n div 10))" by simp
    with False show ?thesis by (simp add: decimal_large is_digit_digit_char)
  qed
qed

lemma length_decimal_le: "0 < m \<Longrightarrow> n < 10 ^ m \<Longrightarrow> length (decimal n) \<le> m"
proof (induction n arbitrary: m rule: decimal.induct)
  case (1 n)
  show ?case
  proof (cases "n < 10")
    case True
    with 1(2) show ?thesis by (simp add: decimal_small)
  next
    case False
    with 1(3) have "1 < m" by (cases "m = 1") (use 1(2) in auto)
    then obtain m' where m: "m = Suc m'" and "0 < m'" by (cases m) auto
    from 1(3) have "n div 10 < 10 ^ m'" by (simp add: m div_less_iff_less_mult mult.commute)
    with False 1(1) \<open>0 < m'\<close> have "length (decimal (n div 10)) \<le> m'" by simp
    with False show ?thesis by (simp add: decimal_large m)
  qed
qed

lemma length_decimal_pos: "0 < length (decimal n)"
  by (cases "n < 10") (simp_all add: decimal_small decimal_large)

lemma length_zero_pad: "length s \<le> w \<Longrightarrow> length (zero_pad w s) = w"
  by (simp add: zero_pad_def)

lemma digits_zero_pad: "list_all is_digit s \<Longrightarrow> list_all is_digit (zero_pad w s)"
proof -
  have "is_digit (CHR ''0'')" by (simp add: is_digit_def)
  then have "list_all is_digit (replicate n (CHR ''0''))" for n
    by (simp add: list_all_iff)
  then show "list_all is_digit s \<Longrightarrow> list_all is_digit (zero_pad w s)"
    by (simp add: zero_pad_def)
qed

lemma printf_03d_nat:
  assumes "d < 1000"
  shows "length (printf_03d (int d)) = 3" and "list_all is_digit (printf_03d (int d))"
proof -
  from assms have "length (decimal d) \<le> 3" by (intro length_decimal_le) simp_all
  then show "length (printf_03d (int d)) = 3" by (simp add: printf_03d_def length_zero_pad)
  show "list_all is_digit (printf_03d (int d))"
    by (simp add: printf_03d_def digits_zero_pad digits_decimal)
qed

lemma printf_d_nat: "list_all is_digit (printf_d (int n))"
  by (simp add: printf_d_def digits_decimal)

lemma length_printf_d_nat: "n < 2 ^ 31 \<Longrightarrow> length (printf_d (int n)) \<le> 10"
proof -
  assume "n < 2 ^ 31"
  then have "n < 10 ^ 10" by simp
  then have "length (decimal n) \<le> 10" by (intro length_decimal_le) simp_all
  then show ?thesis by (simp add: printf_d_def)
qed

lemma not_digit [simp]: "\<not> is_digit (CHR ''.'')" "\<not> is_digit (CHR ''-'')"
  by (simp_all add: is_digit_def)

lemma digits_no_point: "list_all is_digit s \<Longrightarrow> CHR ''.'' \<notin> set s"
  by (auto simp: list_all_iff)


lemma count_list_0: "x \<notin> set xs \<Longrightarrow> count_list xs x = 0"
  by (induction xs) auto

lemma dropWhile_notin: "x \<notin> set xs \<Longrightarrow> dropWhile (\<lambda>c. c \<noteq> x) (xs @ x # ys) = x # ys"
  by (induction xs) auto

lemma decimal_shapeI:
  assumes "CHR ''.'' \<notin> set a" and "length c = 3" and "list_all is_digit c"
  shows "decimal_shape (a @ ''.'' @ c)"
proof -
  from assms(3) have "CHR ''.'' \<notin> set c" by (rule digits_no_point)
  with assms(1) have "count_list (a @ ''.'' @ c) (CHR ''.'') = 1"
    by (simp add: count_list_0)
  moreover have "dropWhile (\<lambda>c. c \<noteq> CHR ''.'') (a @ ''.'' @ c) = CHR ''.'' # c"
    using dropWhile_notin [OF assms(1), of c] by simp
  ultimately show ?thesis using assms(2,3) by (simp add: decimal_shape_def)
qed

lemma snprintf_fits: "length text < n \<Longrightarrow> snprintf b n text = text"
  by (simp add: snprintf_def)

lemma finite_in_range:
  assumes "is_float32 x" and "is_finite x" and "\<bar>valof x\<bar> < 2 ^ 31"
  obtains s k where "x = Finite s k" and "representable k" and "k < 2 ^ 180"
proof (cases x)
  case (Finite s k)
  with assms(3) have "real k / 2 ^ 149 < 2 ^ 31" by (simp split: if_splits)
  then have "real k < 2 ^ 31 * 2 ^ 149" by (simp only: pos_divide_less_eq zero_less_power zero_less_numeral)
  then have "real k < real (2 ^ 180)" by simp
  then have "k < 2 ^ 180" by (simp only: of_nat_less_iff)
  with Finite assms(1) show thesis by (intro that [of s k]) simp_all
next
  case (Infinity s)
  with assms(2) show thesis by simp
next
  case NaN
  with assms(2) show thesis by simp
qed

lemma decimal_0: "decimal 0 = ''0''"
  by (simp add: decimal_small digit_char_def)

lemma float_to_string_neg_zero:
  "float_to_string b n (Finite True 0) = snprintf b (unat n) ''0.000''"
proof -
  have A: "flt (Finite True 0) (int_to_float 0) = False"
    by (simp add: int_to_float_0)
  have B: "float_to_int32 (Finite True 0) = 0"
    by (simp add: float_to_int32_def)
  have r0: "round_float True 0 q = Finite True 0" if "0 < q" for q
    using round_float_exact [OF that representable_0, of True] by simp
  have D: "fsub (Finite True 0) (Finite False 0) = Finite True 0"
    by (simp add: fsub_def r0)
  have E: "fmul (Finite True 0) (int_to_float 1000) = Finite True 0"
    by (simp add: int_to_float_1000 r0)
  have P: "printf_d 0 = ''0''" "printf_03d 0 = ''000''"
    by (simp_all add: printf_d_def printf_03d_def decimal_0 zero_pad_def numeral_3_eq_3)
  show ?thesis
    by (simp add: float_to_string_def Let_def A B int_to_float_0 D E P)
qed

lemmas round_eval = round_float_def round_even_def Let_def bitlen.simps

lemma decimal_eval:
  "decimal n = (if n < 10 then [digit_char n] else decimal (n div 10) @ [digit_char (n mod 10)])"
  by (rule decimal.simps)

lemma zero_pad_simps:
  "zero_pad 3 [a] = [CHR ''0'', CHR ''0'', a]"
  "zero_pad 3 [a, b] = [CHR ''0'', a, b]"
  "zero_pad 3 (a # b # c # s) = a # b # c # s"
  "zero_pad 2 [a] = [CHR ''0'', a]"
  "zero_pad 2 (a # b # s) = a # b # s"
  by (simp_all add: zero_pad_def numeral_2_eq_2 numeral_3_eq_3)

lemmas printf_eval = printf_d_def printf_03d_def decimal_eval digit_char_def zero_pad_simps

lemma float_to_string_pos:
  assumes "\<not> flt x (int_to_float 0)"
    and "sint (float_to_int32 x) = i"
    and "fmul (fsub x (int_to_float i)) (int_to_float 1000) = y"
    and "sint (float_to_int32 y) = d"
  shows "float_to_string b n x = snprintf b (unat n) (printf_d i @ ''.'' @ printf_03d d)"
  using assms by (simp add: float_to_string_def Let_def)


subsection \<open>C1: one decimal point and three digits\<close>

lemma float_to_string_two_to_32:
  "float_to_string b 32 (Finite False (2 ^ 181)) = ''2147483647.2147483647''"
proof -
  have A: "\<not> flt (Finite False (2 ^ 181)) (int_to_float 0)"
    by (simp add: int_to_float_0)
  have B: "sint (float_to_int32 (Finite False (2 ^ 181))) = 2147483647"
    by (simp add: float_to_int32_def)
  have C: "int_to_float 2147483647 = Finite False (2 ^ 180)"
    by (simp add: int_to_float_def round_eval)
  have D: "fsub (Finite False (2 ^ 181)) (Finite False (2 ^ 180)) = Finite False (2 ^ 180)"
    by (simp add: fsub_def round_eval)
  have E: "fmul (Finite False (2 ^ 180)) (int_to_float 1000) = Finite False (1000 * 2 ^ 180)"
    by (simp add: int_to_float_1000 round_eval)
  have F: "fmul (fsub (Finite False (2 ^ 181)) (int_to_float 2147483647)) (int_to_float 1000)
      = Finite False (1000 * 2 ^ 180)"
    by (simp only: C D E)
  have G: "sint (float_to_int32 (Finite False (1000 * 2 ^ 180))) = 2147483647"
    by (simp add: float_to_int32_def)
  have P: "printf_d 2147483647 = ''2147483647''" "printf_03d 2147483647 = ''2147483647''"
    by (simp_all add: printf_eval)
  show ?thesis
    by (subst float_to_string_pos [OF A B F G]) (simp add: P snprintf_def)
qed

lemma representable_pow2:
  assumes "i < 277"
  shows "representable (2 ^ i)"
proof (rule representableI [of _ 1 i])
  show "(2::nat) ^ i = 1 * 2 ^ i" by simp
  show "(1::nat) \<le> 2 ^ 24" by simp
  from assms show "(2::nat) ^ i < 2 ^ 277"
    by (simp only: power_strict_increasing_iff one_less_numeral_iff semiring_norm)
qed

lemma INPUT_NUM_eq: "INPUT_NUM = Finite False (2 ^ 147)"
  by (simp add: INPUT_NUM_def float_literal_def round_eval)

lemma float_to_string_quarter:
  "float_to_string b n INPUT_NUM = snprintf b (unat n) ''0.250''"
proof -
  have A: "\<not> flt (Finite False (2 ^ 147)) (int_to_float 0)"
    by (simp add: int_to_float_0)
  have B: "sint (float_to_int32 (Finite False (2 ^ 147))) = 0"
    by (simp add: float_to_int32_def)
  have F: "fmul (fsub (Finite False (2 ^ 147)) (int_to_float 0)) (int_to_float 1000)
      = Finite False (250 * 2 ^ 149)"
    by (simp add: int_to_float_0 int_to_float_1000 fsub_def round_eval)
  have G: "sint (float_to_int32 (Finite False (250 * 2 ^ 149))) = 250"
    by (simp add: float_to_int32_def)
  have P: "printf_d 0 = ''0''" "printf_03d 250 = ''250''"
    by (simp_all add: printf_eval)
  show ?thesis
    unfolding INPUT_NUM_eq by (subst float_to_string_pos [OF A B F G]) (simp add: P)
qed

text \<open>
  C1, as amended. For every finite single-precision input whose magnitude is below \<open>2 ^ 31\<close>
  (so that its integral part fits \<^verbatim>\<open>int\<close>) and every buffer of at least 16 characters, the
  string that \<^verbatim>\<open>float_to_string\<close> leaves in the buffer contains exactly one decimal point,
  followed by exactly 3 characters, all of them digits. In particular the scaled fraction
  is never 1000.
\<close>

theorem C1_decimal_shape:
  assumes "is_float32 x" and "is_finite x" and "\<bar>valof x\<bar> < 2 ^ 31"
    and "16 \<le> unat buf_size"
  shows "decimal_shape (float_to_string string_buffer buf_size x)"
proof -
  from assms(1-3) obtain s k where x: "x = Finite s k" and k: "representable k" "k < 2 ^ 180"
    by (rule finite_in_range)
  from k obtain R where "round_float False (k mod 2 ^ 149 * 1000) 1 = Finite False R"
    and R: "R < 1000 * 2 ^ 149"
    and pos: "\<And>b n. float_to_string b n (Finite False k) =
      snprintf b (unat n) (printf_d (int (k div 2 ^ 149)) @ ''.'' @ printf_03d (int (R div 2 ^ 149)))"
    and neg: "\<And>b n. 0 < k \<Longrightarrow> float_to_string b n (Finite True k) =
      snprintf b (unat n) (''-'' @ printf_d (int (k div 2 ^ 149)) @ ''.'' @ printf_03d (int (R div 2 ^ 149)))"
    using float_to_string_nonneg [OF k] by blast
  define a where "a = printf_d (int (k div 2 ^ 149))"
  define c where "c = printf_03d (int (R div 2 ^ 149))"
  from R have "R div 2 ^ 149 < 1000"
    by (simp only: div_less_iff_less_mult zero_less_power zero_less_numeral)
  then have c: "length c = 3" "list_all is_digit c"
    unfolding c_def by (rule printf_03d_nat)+
  from k(2) have "k < 2 ^ 31 * 2 ^ 149" by simp
  then have "k div 2 ^ 149 < 2 ^ 31"
    by (simp only: div_less_iff_less_mult zero_less_power zero_less_numeral)
  then have la: "length a \<le> 10" unfolding a_def by (rule length_printf_d_nat)
  have da: "list_all is_digit a" unfolding a_def by (rule printf_d_nat)
  then have pa: "CHR ''.'' \<notin> set a" by (rule digits_no_point)
  have shape1: "decimal_shape (a @ ''.'' @ c)"
    using pa c by (rule decimal_shapeI)
  have shape2: "decimal_shape (''-'' @ a @ ''.'' @ c)"
    using decimal_shapeI [of "''-'' @ a" c] pa c by simp
  show ?thesis
  proof (cases "s \<and> 0 < k")
    case True
    with neg [of string_buffer buf_size] la c(1) assms(4) shape2 x show ?thesis
      by (simp add: snprintf_fits a_def c_def)
  next
    case False
    show ?thesis
    proof (cases s)
      case True
      with False have "k = 0" by simp
      with True x assms(4) show ?thesis
        by (simp add: float_to_string_neg_zero snprintf_fits decimal_shape_def is_digit_def)
    next
      case False
      with pos [of string_buffer buf_size] la c(1) assms(4) shape1 x show ?thesis
        by (simp add: snprintf_fits a_def c_def)
    qed
  qed
qed

theorem C1_decimal_shape_witness:
  "is_float32 (Finite True (27 * 2 ^ 146)) \<and> is_finite (Finite True (27 * 2 ^ 146)) \<and>
   \<bar>valof (Finite True (27 * 2 ^ 146))\<bar> < 2 ^ 31 \<and> 16 \<le> unat STRING_BUF_SIZE \<and>
   decimal_shape (float_to_string [] STRING_BUF_SIZE (Finite True (27 * 2 ^ 146)))"
proof -
  have 1: "is_float32 (Finite True (27 * 2 ^ 146))"
    using representableI [of "27 * 2 ^ 146" 27 146] by simp
  have 2: "is_finite (Finite True (27 * 2 ^ 146))" by simp
  have 3: "\<bar>valof (Finite True (27 * 2 ^ 146))\<bar> < 2 ^ 31" by simp
  have 4: "16 \<le> unat STRING_BUF_SIZE" by (simp add: STRING_BUF_SIZE_def)
  from 1 2 3 4 C1_decimal_shape [OF 1 2 3 4, of "[]"] show ?thesis by blast
qed

text \<open>
  C1 as stated fails. The value \<open>2 ^ 32\<close> is formatted, in the driver's own buffer of 32
  characters, with ten characters after the decimal point; and with a buffer of 3
  characters the input 0.25 leaves \<^verbatim>\<open>0.\<close> in the buffer.
\<close>

theorem C1_counterexample:
  "is_float32 (Finite False (2 ^ 181)) \<and> valof (Finite False (2 ^ 181)) = 2 ^ 32 \<and>
   float_to_string [] STRING_BUF_SIZE (Finite False (2 ^ 181)) = ''2147483647.2147483647'' \<and>
   \<not> decimal_shape ''2147483647.2147483647'' \<and>
   float_to_string [] 3 INPUT_NUM = ''0.'' \<and> \<not> decimal_shape ''0.''"
proof -
  have "is_float32 (Finite False (2 ^ 181))" using representable_pow2 [of 181] by simp
  moreover have "valof (Finite False (2 ^ 181)) = 2 ^ 32" by simp
  moreover have "float_to_string [] STRING_BUF_SIZE (Finite False (2 ^ 181)) = ''2147483647.2147483647''"
    unfolding STRING_BUF_SIZE_def by (rule float_to_string_two_to_32)
  moreover have "\<not> decimal_shape ''2147483647.2147483647''"
    by (simp add: decimal_shape_def)
  moreover have "float_to_string [] 3 INPUT_NUM = ''0.''"
    by (simp add: float_to_string_quarter snprintf_def)
  moreover have "\<not> decimal_shape ''0.''"
    by (simp add: decimal_shape_def)
  ultimately show ?thesis by blast
qed

subsection \<open>C10: negative zero\<close>

text \<open>
  C10. Negative zero is not below zero for the sign test \<^verbatim>\<open>number < 0\<close>, so no sign is
  printed: with room for the five characters and the terminator, formatting \<open>-0.0\<close>
  leaves \<^verbatim>\<open>0.000\<close> in the buffer.
\<close>

theorem C10_negative_zero:
  assumes "6 \<le> unat buf_size"
  shows "\<not> flt (Finite True 0) (int_to_float 0) \<and>
    float_to_string string_buffer buf_size (Finite True 0) = ''0.000''"
  using assms by (simp add: int_to_float_0 float_to_string_neg_zero snprintf_fits)

theorem C10_negative_zero_witness:
  "6 \<le> unat STRING_BUF_SIZE \<and> \<not> flt (Finite True 0) (int_to_float 0) \<and>
   float_to_string [] STRING_BUF_SIZE (Finite True 0) = ''0.000''"
proof -
  have 1: "6 \<le> unat STRING_BUF_SIZE" by (simp add: STRING_BUF_SIZE_def)
  from 1 C10_negative_zero [OF 1, of "[]"] show ?thesis by blast
qed

subsection \<open>C3: values with three decimals\<close>

lemma float_to_string_two_to_31:
  "float_to_string b 32 (Finite False (2 ^ 180)) = ''2147483647.000''"
proof -
  have A: "\<not> flt (Finite False (2 ^ 180)) (int_to_float 0)"
    by (simp add: int_to_float_0)
  have B: "sint (float_to_int32 (Finite False (2 ^ 180))) = 2147483647"
    by (simp add: float_to_int32_def)
  have C: "int_to_float 2147483647 = Finite False (2 ^ 180)"
    by (simp add: int_to_float_def round_eval)
  have D: "fsub (Finite False (2 ^ 180)) (Finite False (2 ^ 180)) = Finite False 0"
    by (simp add: fsub_def)
  have E: "fmul (Finite False 0) (int_to_float 1000) = Finite False 0"
    by (simp add: int_to_float_1000 round_eval)
  have F: "fmul (fsub (Finite False (2 ^ 180)) (int_to_float 2147483647)) (int_to_float 1000)
      = Finite False 0"
    by (simp only: C D E)
  have G: "sint (float_to_int32 (Finite False 0)) = 0"
    by (simp add: float_to_int32_def)
  have P: "printf_d 2147483647 = ''2147483647''" "printf_03d 0 = ''000''"
    by (simp_all add: printf_eval)
  show ?thesis
    by (subst float_to_string_pos [OF A B F G]) (simp add: P snprintf_def)
qed

lemma float_literal_1005: "float_literal 1005 1000 = Finite False (8430551 * 2 ^ 126)"
  by (simp add: float_literal_def round_eval)

lemma float_to_string_1005:
  "float_to_string b 32 (float_literal 1005 1000) = ''1.004''"
proof -
  have A: "\<not> flt (Finite False (8430551 * 2 ^ 126)) (int_to_float 0)"
    by (simp add: int_to_float_0)
  have B: "sint (float_to_int32 (Finite False (8430551 * 2 ^ 126))) = 1"
    by (simp add: float_to_int32_def)
  have C: "int_to_float 1 = Finite False (2 ^ 149)"
    by (simp add: int_to_float_def round_eval)
  have D: "fsub (Finite False (8430551 * 2 ^ 126)) (Finite False (2 ^ 149)) = Finite False (41943 * 2 ^ 126)"
    by (simp add: fsub_def round_eval)
  have E: "fmul (Finite False (41943 * 2 ^ 126)) (int_to_float 1000) = Finite False (41943000 * 2 ^ 126)"
    by (simp add: int_to_float_1000 round_eval)
  have F: "fmul (fsub (Finite False (8430551 * 2 ^ 126)) (int_to_float 1)) (int_to_float 1000)
      = Finite False (41943000 * 2 ^ 126)"
    by (simp only: C D E)
  have G: "sint (float_to_int32 (Finite False (41943000 * 2 ^ 126))) = 4"
    by (simp add: float_to_int32_def)
  have P: "printf_d 1 = ''1''" "printf_03d 4 = ''004''"
    by (simp_all add: printf_eval)
  show ?thesis
    unfolding float_literal_1005
    by (subst float_to_string_pos [OF A B F G]) (simp add: P snprintf_def)
qed

text \<open>
  C3, as amended. Let \<open>x\<close> be a single-precision value that is exactly \<open>n + d / 1000\<close>
  with \<open>n < 2 ^ 31\<close> and \<open>d \<le> 999\<close> (such a \<open>d\<close> is a multiple of 125), and let the
  buffer have room for the text and its terminator. Then \<^verbatim>\<open>float_to_string\<close> leaves exactly
  the digits of \<open>n\<close>, a decimal point and \<open>d\<close> padded with zeros to 3 digits.
\<close>

theorem C3_three_decimals:
  assumes x: "is_float32 x" "is_finite x"
    and v: "valof x = real n + real d / 1000"
    and d: "d \<le> 999" and n: "n < 2 ^ 31"
    and cap: "length (printf_d (int n)) + 5 \<le> unat buf_size"
  shows "float_to_string string_buffer buf_size x = printf_d (int n) @ ''.'' @ zero_pad 3 (decimal d)"
proof -
  from x(2) obtain s k where xk: "x = Finite s k" by (cases x) simp_all
  with x(1) have rep: "representable k" by simp
  have zero: "k = 0" if s
  proof -
    from v that have "- real k / 2 ^ 149 = real n + real d / 1000" by (simp add: xk)
    moreover have "0 \<le> real n + real d / 1000" by simp
    ultimately have "- real k / 2 ^ 149 \<ge> 0" by simp
    then have "real k \<le> 0" by (simp add: divide_le_0_iff)
    then show ?thesis by simp
  qed
  have "real k / 2 ^ 149 = real n + real d / 1000"
    using v zero by (cases s) (simp_all add: xk)
  then have "real k * 1000 = (real n * 1000 + real d) * 2 ^ 149"
    by (simp add: field_simps)
  then have "real (k * 1000) = real ((n * 1000 + d) * 2 ^ 149)" by simp
  then have eq: "k * 1000 = (n * 1000 + d) * 2 ^ 149" by (simp only: of_nat_eq_iff)
  define f where "f = k - n * 2 ^ 149"
  from eq have "n * 2 ^ 149 * 1000 \<le> k * 1000" by (simp add: algebra_simps)
  then have nk: "n * 2 ^ 149 \<le> k" by simp
  then have kf: "k = n * 2 ^ 149 + f" by (simp add: f_def)
  from eq have f1000: "f * 1000 = d * 2 ^ 149" by (simp add: kf algebra_simps)
  from d have "d * 2 ^ 149 < 1000 * 2 ^ 149" by simp
  with f1000 have "f * 1000 < 2 ^ 149 * 1000" by simp
  then have f149: "f < 2 ^ 149" by (simp only: mult_less_cancel2)
  then have kdiv: "k div 2 ^ 149 = n" and kmod: "k mod 2 ^ 149 = f"
    by (simp_all add: kf)
  from n have "n + 1 \<le> 2 ^ 31" by simp
  then have "(n + 1) * 2 ^ 149 \<le> 2 ^ 31 * 2 ^ 149" by (rule mult_le_mono1)
  with f149 have k180: "k < 2 ^ 180" by (simp add: kf)
  from float_to_string_nonneg [OF rep k180] obtain R
    where R: "round_float False (k mod 2 ^ 149 * 1000) 1 = Finite False R"
      and pos: "\<And>b m. float_to_string b m (Finite False k) =
        snprintf b (unat m) (printf_d (int (k div 2 ^ 149)) @ ''.'' @ printf_03d (int (R div 2 ^ 149)))"
    by blast
  have "representable (d * 2 ^ 149)"
    using d by (intro representableI [of _ d 149]) simp_all
  then have "round_float False (d * 2 ^ 149) 1 = Finite False (d * 2 ^ 149)"
    using round_float_exact [of 1 "d * 2 ^ 149" False] by simp
  moreover from R have "round_float False (d * 2 ^ 149) 1 = Finite False R"
    by (simp only: kmod f1000)
  ultimately have "R = d * 2 ^ 149" by (simp only: float32.inject)
  then have Rdiv: "R div 2 ^ 149 = d" by simp
  have pad: "printf_03d (int d) = zero_pad 3 (decimal d)" by (simp add: printf_03d_def)
  have len: "length (printf_03d (int d)) = 3"
    using d by (intro printf_03d_nat) simp
  show ?thesis
  proof (cases s)
    case False
    from pos [of string_buffer buf_size]
    have "float_to_string string_buffer buf_size (Finite False k) =
        snprintf string_buffer (unat buf_size) (printf_d (int n) @ ''.'' @ printf_03d (int d))"
      by (simp only: kdiv Rdiv)
    moreover have "length (printf_d (int n) @ ''.'' @ printf_03d (int d)) < unat buf_size"
      using cap len by simp
    ultimately have res: "float_to_string string_buffer buf_size (Finite False k) =
        printf_d (int n) @ ''.'' @ printf_03d (int d)"
      by (simp only: snprintf_fits)
    from False xk have "x = Finite False k" by simp
    then show ?thesis unfolding pad [symmetric] using res by (rule ssubst)
  next
    case True
    then have "k = 0" by (rule zero)
    with kdiv [symmetric] have "n = 0" by simp
    with \<open>k = 0\<close> kf have "f = 0" by simp
    with f1000 have "d = 0" by simp
    note \<open>n = 0\<close> \<open>d = 0\<close>
    moreover have "printf_d 0 = ''0''" "zero_pad 3 (decimal 0) = ''000''"
      by (simp_all add: printf_d_def decimal_0 zero_pad_simps)
    ultimately show ?thesis using cap True \<open>k = 0\<close>
      by (simp add: xk float_to_string_neg_zero snprintf_fits)
  qed
qed

theorem C3_three_decimals_witness:
  "is_float32 (Finite False (27 * 2 ^ 146)) \<and> is_finite (Finite False (27 * 2 ^ 146)) \<and>
   valof (Finite False (27 * 2 ^ 146)) = real 3 + real 375 / 1000 \<and>
   (375::nat) \<le> 999 \<and> (3::nat) < 2 ^ 31 \<and>
   length (printf_d (int 3)) + 5 \<le> unat STRING_BUF_SIZE \<and>
   float_to_string [] STRING_BUF_SIZE (Finite False (27 * 2 ^ 146)) = ''3.375''"
proof -
  have 1: "is_float32 (Finite False (27 * 2 ^ 146))"
    using representableI [of "27 * 2 ^ 146" 27 146] by simp
  have 2: "is_finite (Finite False (27 * 2 ^ 146))" by simp
  have 3: "valof (Finite False (27 * 2 ^ 146)) = real 3 + real 375 / 1000" by simp
  have 4: "(375::nat) \<le> 999" by simp
  have 5: "(3::nat) < 2 ^ 31" by simp
  have p: "printf_d 3 = ''3''" "zero_pad 3 (decimal 375) = ''375''"
    by (simp_all add: printf_eval)
  have 6: "length (printf_d (int 3)) + 5 \<le> unat STRING_BUF_SIZE"
    by (simp add: p STRING_BUF_SIZE_def)
  from C3_three_decimals [OF 1 2 3 4 5 6, of "[]"]
  have "float_to_string [] STRING_BUF_SIZE (Finite False (27 * 2 ^ 146)) = ''3.375''"
    by (simp add: p)
  with 1 2 3 4 5 6 show ?thesis by blast
qed

text \<open>
  C3 as stated fails for \<open>n = 2 ^ 31\<close>: the value \<open>2147483648.0\<close> is printed as
  \<^verbatim>\<open>2147483647.000\<close>. The restriction to values that single precision holds exactly
  matters as well: the single-precision constant nearest to 1.005 is printed as \<^verbatim>\<open>1.004\<close>.
\<close>

theorem C3_counterexample:
  "is_float32 (Finite False (2 ^ 180)) \<and>
   valof (Finite False (2 ^ 180)) = real 2147483648 + real 0 / 1000 \<and>
   float_to_string [] STRING_BUF_SIZE (Finite False (2 ^ 180)) = ''2147483647.000'' \<and>
   printf_d (int 2147483648) @ ''.'' @ zero_pad 3 (decimal 0) = ''2147483648.000'' \<and>
   float_to_string [] STRING_BUF_SIZE (float_literal 1005 1000) = ''1.004''"
proof -
  have "is_float32 (Finite False (2 ^ 180))" using representable_pow2 [of 180] by simp
  moreover have "valof (Finite False (2 ^ 180)) = real 2147483648 + real 0 / 1000" by simp
  moreover have "float_to_string [] STRING_BUF_SIZE (Finite False (2 ^ 180)) = ''2147483647.000''"
    unfolding STRING_BUF_SIZE_def by (rule float_to_string_two_to_31)
  moreover have "printf_d (int 2147483648) @ ''.'' @ zero_pad 3 (decimal 0) = ''2147483648.000''"
    by (simp add: printf_eval)
  moreover have "float_to_string [] STRING_BUF_SIZE (float_literal 1005 1000) = ''1.004''"
    unfolding STRING_BUF_SIZE_def by (rule float_to_string_1005)
  ultimately show ?thesis by blast
qed

subsection \<open>C4: the sign of negative numbers\<close>








subsection \<open>C9: the range of the 16-bit conversion\<close>

lemma is_up_16_32: "is_up (scast :: 16 word \<Rightarrow> 32 word)"
  by (simp add: is_up)

lemma is_down_32_16: "is_down (ucast :: 32 word \<Rightarrow> 16 word)"
  by (simp add: is_down)

lemma sint_scast_16_32: "sint (scast (w :: 16 word) :: 32 word) = sint w"
  using is_up_16_32 by (rule sint_up_scast)

lemma ucast_scast_16_32: "(ucast (scast (w :: 16 word) :: 32 word) :: 16 word) = w"
  by (simp only: down_cast_same [OF is_down_32_16] scast_up_scast_id [OF is_up_16_32])

lemma ucast_word_of_int_32_16: "(ucast (word_of_int i :: 32 word) :: 16 word) = word_of_int i"
  using is_down_32_16 by (rule ucast_down_wi)

lemma float_to_q15_one_and_a_half: "sint (float_to_q15 (Finite False (3 * 2 ^ 148))) = - 16384"
proof -
  have "int_to_float 0x8000 = Finite False (2 ^ 164)"
    by (simp add: int_to_float_def round_eval)
  moreover have "float_literal 5 10 = Finite False (2 ^ 148)"
    by (simp add: float_literal_def round_eval)
  moreover have "fmul (Finite False (3 * 2 ^ 148)) (Finite False (2 ^ 164)) = Finite False (3 * 2 ^ 163)"
    by (simp add: round_eval)
  moreover have "fadd (Finite False (3 * 2 ^ 163)) (Finite False (2 ^ 148)) = Finite False (98305 * 2 ^ 148)"
    by (simp add: round_eval)
  moreover have "float_to_int32 (Finite False (98305 * 2 ^ 148)) = 49152"
    by (simp add: float_to_int32_def)
  moreover have "sint (scast (ucast (49152 :: 32 word) :: 16 word) :: 32 word) = - 16384"
    by simp
  ultimately show ?thesis by (simp only: float_to_q15_def float_to_int16_def)
qed

text \<open>
  C9. For every \<^verbatim>\<open>float\<close> input, in the range \<open>[-1, 1)\<close> or not, finite or not, the value
  that \<^verbatim>\<open>float_to_q15\<close> returns lies between -32768 and 32767, and the 32-bit result is the
  sign extension of its own low 16 bits: the cast to \<^verbatim>\<open>int16_t\<close> comes before the widening.
\<close>

theorem C9_q15_range:
  "- 32768 \<le> sint (float_to_q15 a) \<and> sint (float_to_q15 a) \<le> 32767 \<and>
   float_to_q15 a = scast (ucast (float_to_q15 a) :: 16 word)"
proof -
  define w where "w = float_to_int16 (fadd (fmul a (int_to_float 0x8000)) (float_literal 5 10))"
  have q: "float_to_q15 a = scast w" by (simp add: float_to_q15_def w_def)
  have "- (2 ^ (LENGTH(16) - 1)) \<le> sint w" by (rule sint_ge)
  moreover have "sint w < 2 ^ (LENGTH(16) - 1)" by (rule sint_lt)
  ultimately have "- 32768 \<le> sint w" "sint w \<le> 32767" by simp_all
  then show ?thesis by (simp add: q sint_scast_16_32 ucast_scast_16_32)
qed

text \<open>An input outside the range: 1.5 is converted to -16384.\<close>

theorem C9_q15_range_witness:
  "sint (float_to_q15 (Finite False (3 * 2 ^ 148))) = - 16384 \<and>
   - 32768 \<le> sint (float_to_q15 (Finite False (3 * 2 ^ 148))) \<and>
   sint (float_to_q15 (Finite False (3 * 2 ^ 148))) \<le> 32767"
  using C9_q15_range [of "Finite False (3 * 2 ^ 148)"] float_to_q15_one_and_a_half by blast

subsection \<open>C7: the software square root of 0.25\<close>

lemma isqrt_bounds: "isqrt n * isqrt n \<le> n \<and> n < (isqrt n + 1) * (isqrt n + 1)"
proof (induction n rule: isqrt.induct)
  case (1 n)
  show ?case
  proof (cases "n < 4")
    case True
    then have "n = 0 \<or> n = 1 \<or> n = 2 \<or> n = 3" by auto
    then show ?thesis by (elim disjE) (simp_all add: isqrt.simps)
  next
    case False
    define r where "r = isqrt (n div 4)"
    from 1 False have lo: "r * r \<le> n div 4" and hi: "n div 4 < (r + 1) * (r + 1)"
      by (simp_all add: r_def)
    from lo have "4 * (r * r) \<le> 4 * (n div 4)" by simp
    also have "\<dots> \<le> n" by simp
    finally have lo': "(2 * r) * (2 * r) \<le> n" by (simp add: algebra_simps)
    from hi have "n div 4 + 1 \<le> (r + 1) * (r + 1)" by simp
    then have "4 * (n div 4 + 1) \<le> 4 * ((r + 1) * (r + 1))" by simp
    moreover have "n < 4 * (n div 4 + 1)" by simp
    ultimately have hi': "n < (2 * r + 2) * (2 * r + 2)" by (simp add: algebra_simps)
    have eq: "isqrt n = (if (2 * r + 1) * (2 * r + 1) \<le> n then 2 * r + 1 else 2 * r)"
      using False by (subst isqrt.simps) (simp add: Let_def r_def)
    show ?thesis
    proof (cases "(2 * r + 1) * (2 * r + 1) \<le> n")
      case True
      with eq have "isqrt n = 2 * r + 1" by simp
      with True hi' show ?thesis by (simp add: add.assoc)
    next
      case False
      with eq have "isqrt n = 2 * r" by simp
      with False lo' show ?thesis by simp
    qed
  qed
qed

lemma isqrt_square: "isqrt (r * r) = r"
proof -
  define s where "s = isqrt (r * r)"
  from isqrt_bounds [of "r * r"] have 1: "s * s \<le> r * r" and 2: "r * r < (s + 1) * (s + 1)"
    by (simp_all add: s_def)
  have "s \<le> r"
  proof (rule ccontr)
    assume "\<not> s \<le> r"
    then have "r < s" by simp
    then have "r * r < s * s" by (intro mult_strict_mono) simp_all
    with 1 show False by simp
  qed
  moreover have "r \<le> s"
  proof (rule ccontr)
    assume "\<not> r \<le> s"
    then have "s + 1 \<le> r" by simp
    then have "(s + 1) * (s + 1) \<le> r * r" by (intro mult_le_mono)
    with 2 show False by simp
  qed
  ultimately show ?thesis by (simp add: s_def)
qed

lemma sqrtf_INPUT_NUM: "sqrtf INPUT_NUM = Finite False (2 ^ 148)"
proof -
  have sq: "(2::nat) ^ 147 * 2 ^ 149 = 2 ^ 148 * 2 ^ 148" by simp
  have r: "isqrt (2 ^ 147 * 2 ^ 149) = 2 ^ 148" unfolding sq by (rule isqrt_square)
  have nz: "(2::nat) ^ 147 \<noteq> 0" by simp
  have "round_float False (2 ^ 148) 1 = Finite False (2 ^ 148)"
    using round_float_exact [OF zero_less_one representable_pow2 [of 148], of False] by simp
  then show ?thesis
    unfolding INPUT_NUM_eq sqrtf.simps Let_def r by (simp only: nz sq if_False if_True simp_thms)
qed

lemma float_to_string_half:
  "float_to_string b n (Finite False (2 ^ 148)) = snprintf b (unat n) ''0.500''"
proof -
  have A: "\<not> flt (Finite False (2 ^ 148)) (int_to_float 0)"
    by (simp add: int_to_float_0)
  have B: "sint (float_to_int32 (Finite False (2 ^ 148))) = 0"
    by (simp add: float_to_int32_def)
  have F: "fmul (fsub (Finite False (2 ^ 148)) (int_to_float 0)) (int_to_float 1000)
      = Finite False (500 * 2 ^ 149)"
    by (simp add: int_to_float_0 int_to_float_1000 fsub_def round_eval)
  have G: "sint (float_to_int32 (Finite False (500 * 2 ^ 149))) = 500"
    by (simp add: float_to_int32_def)
  have P: "printf_d 0 = ''0''" "printf_03d 500 = ''500''"
    by (simp_all add: printf_eval)
  show ?thesis
    by (subst float_to_string_pos [OF A B F G]) (simp add: P)
qed

text \<open>
  C7. The input is the constant 0.25. The software path, \<^verbatim>\<open>sqrtf(INPUT_NUM)\<close> with a correctly
  rounded \<^verbatim>\<open>sqrtf\<close>, yields exactly 0.5 (its square is the input), \<^verbatim>\<open>float_to_string\<close> turns
  that into \<^verbatim>\<open>0.500\<close> in the buffer of \<^verbatim>\<open>STRING_BUF_SIZE\<close> characters, and the last line that
  \<^verbatim>\<open>main\<close> prints carries this text.
\<close>

theorem C7_software_sqrt:
  "valof INPUT_NUM = 1 / 4 \<and> valof (sqrtf INPUT_NUM) = 1 / 2 \<and>
   valof (sqrtf INPUT_NUM) * valof (sqrtf INPUT_NUM) = valof INPUT_NUM \<and>
   float_to_string string_buffer STRING_BUF_SIZE (sqrtf INPUT_NUM) = ''0.500'' \<and>
   (\<exists>before. main cordic sqrtf string_buffer = before @ ''Sqr_root_Software_float = 0.500'' @ CRLF)"
proof -
  have 1: "valof INPUT_NUM = 1 / 4" by (simp add: INPUT_NUM_eq)
  have 2: "valof (sqrtf INPUT_NUM) = 1 / 2" by (simp add: sqrtf_INPUT_NUM)
  have 3: "float_to_string b STRING_BUF_SIZE (sqrtf INPUT_NUM) = ''0.500''" for b
    unfolding sqrtf_INPUT_NUM float_to_string_half by (simp add: STRING_BUF_SIZE_def snprintf_def)
  have 4: "\<exists>before. main cordic sqrtf string_buffer = before @ ''Sqr_root_Software_float = 0.500'' @ CRLF"
  proof
    show "main cordic sqrtf string_buffer =
        (banner @ ''Sqr_root_CORDIC_Q31 = '' @ printf_d (sint (cordic (float_to_q31 INPUT_NUM)))
           @ '' '' @ CRLF @ ''Sqr_root_CORDIC_float = ''
           @ float_to_string string_buffer STRING_BUF_SIZE (q31_to_float (cordic (float_to_q31 INPUT_NUM)))
           @ CRLF)
        @ ''Sqr_root_Software_float = 0.500'' @ CRLF"
      unfolding main_def Let_def 3 by (simp only: append_assoc append_Cons append_Nil)
  qed
  have 5: "valof (sqrtf INPUT_NUM) * valof (sqrtf INPUT_NUM) = valof INPUT_NUM"
    unfolding 1 2 by simp
  from 1 2 5 3 [of string_buffer] 4 show ?thesis by (intro conjI)
qed

subsection \<open>C8: the lines of the report\<close>

lemma split_lines_not_Nil: "split_lines s \<noteq> []"
  by (induction s) (auto split: list.splits)

lemma split_lines_append:
  "CHR 0x0A \<notin> set a \<Longrightarrow>
    split_lines (a @ rest) = (a @ hd (split_lines rest)) # tl (split_lines rest)"
proof (induction a)
  case Nil
  then show ?case using split_lines_not_Nil [of rest] by simp
next
  case (Cons c a)
  then show ?case using split_lines_not_Nil [of rest] by (auto split: list.splits)
qed

lemma split_lines_line:
  "CHR 0x0A \<notin> set a \<Longrightarrow> split_lines (a @ CHR 0x0A # rest) = a # split_lines rest"
  by (simp add: split_lines_append)

lemma newline_not_digit: "\<not> is_digit (CHR 0x0A)"
  by (simp add: is_digit_def)

lemma newline_digits: "list_all is_digit s \<Longrightarrow> CHR 0x0A \<notin> set s"
  using newline_not_digit by (auto simp: list_all_iff)

lemma newline_printf: "CHR 0x0A \<notin> set (printf_d i)" "CHR 0x0A \<notin> set (printf_03d i)"
  by (simp_all add: printf_d_def printf_03d_def newline_digits digits_decimal digits_zero_pad)

lemma newline_float_to_string:
  assumes "unat n \<noteq> 0"
  shows "CHR 0x0A \<notin> set (float_to_string b n x)"
proof -
  have "CHR 0x0A \<notin> set t \<Longrightarrow> CHR 0x0A \<notin> set (snprintf b (unat n) t)" for t
    using assms by (auto simp: snprintf_def dest: in_set_takeD)
  then show ?thesis
    by (simp add: float_to_string_def Let_def newline_printf)
qed

lemma float_to_string_buffer:
  "unat n \<noteq> 0 \<Longrightarrow> float_to_string b n x = float_to_string b' n x"
  by (simp add: float_to_string_def Let_def snprintf_def)

text \<open>
  C8. Whatever the hardware square root and the library's \<^verbatim>\<open>sqrtf\<close> return, and whatever
  the buffer held, the text that \<^verbatim>\<open>main\<close> sends consists of these lines, in this order
  (each ends with a carriage return before its line feed): the three lines of the banner
  and an empty line, then the raw 32-bit result of the hardware as a decimal integer, the
  hardware result converted by \<^verbatim>\<open>q31_to_float\<close> and formatted by \<^verbatim>\<open>float_to_string\<close>, and the
  formatted result of \<^verbatim>\<open>sqrtf\<close>; nothing follows the last line feed.
\<close>

theorem C8_report_lines:
  "split_lines (main cordic sqrtf_lib string_buff) =
    [[CHR 0x1B] @ ''[2J'' @ [CHR 0x1B] @ ''[;H'' @
       ''==============================================================='' @ [CHR 0x0D],
     ''XMC MCU: MATH SQRT example'' @ [CHR 0x0D],
     ''==============================================================='' @ [CHR 0x0D],
     [],
     ''Sqr_root_CORDIC_Q31 = '' @ printf_d (sint (cordic (float_to_q31 INPUT_NUM))) @ '' '' @ [CHR 0x0D],
     ''Sqr_root_CORDIC_float = '' @
       float_to_string string_buff STRING_BUF_SIZE (q31_to_float (cordic (float_to_q31 INPUT_NUM)))
       @ [CHR 0x0D],
     ''Sqr_root_Software_float = '' @
       float_to_string string_buff STRING_BUF_SIZE (sqrtf_lib INPUT_NUM) @ [CHR 0x0D],
     []]"
proof -
  define r where "r = cordic (float_to_q31 INPUT_NUM)"
  define s1 where "s1 = float_to_string string_buff STRING_BUF_SIZE (q31_to_float r)"
  define s2 where "s2 = float_to_string string_buff STRING_BUF_SIZE (sqrtf_lib INPUT_NUM)"
  define A1 where "A1 = [CHR 0x1B] @ ''[2J'' @ [CHR 0x1B] @ ''[;H'' @
       ''==============================================================='' @ [CHR 0x0D]"
  define A2 where "A2 = ''XMC MCU: MATH SQRT example'' @ [CHR 0x0D]"
  define A3 where "A3 = ''==============================================================='' @ [CHR 0x0D]"
  define L1 where "L1 = ''Sqr_root_CORDIC_Q31 = '' @ printf_d (sint r) @ '' '' @ [CHR 0x0D]"
  define L2 where "L2 = ''Sqr_root_CORDIC_float = '' @ s1 @ [CHR 0x0D]"
  define L3 where "L3 = ''Sqr_root_Software_float = '' @ s2 @ [CHR 0x0D]"
  have cap: "unat STRING_BUF_SIZE \<noteq> 0" by (simp add: STRING_BUF_SIZE_def)
  have buf: "float_to_string s1 STRING_BUF_SIZE (sqrtf_lib INPUT_NUM) = s2"
    unfolding s2_def using cap by (rule float_to_string_buffer)
  have stream: "main cordic sqrtf_lib string_buff =
      A1 @ CHR 0x0A # A2 @ CHR 0x0A # A3 @ CHR 0x0A # [] @ CHR 0x0A #
      L1 @ CHR 0x0A # L2 @ CHR 0x0A # L3 @ CHR 0x0A # []"
    unfolding main_def Let_def r_def [symmetric] s1_def [symmetric] buf
      banner_def CRLF_def A1_def A2_def A3_def L1_def L2_def L3_def
    by (simp only: append_assoc append_Cons append_Nil)
  have n1: "CHR 0x0A \<notin> set A1" "CHR 0x0A \<notin> set A2" "CHR 0x0A \<notin> set A3"
    by (simp_all add: A1_def A2_def A3_def)
  have n2: "CHR 0x0A \<notin> set L1"
    by (simp add: L1_def newline_printf)
  have "CHR 0x0A \<notin> set s1" "CHR 0x0A \<notin> set s2"
    unfolding s1_def s2_def using cap by (rule newline_float_to_string)+
  then have n3: "CHR 0x0A \<notin> set L2" "CHR 0x0A \<notin> set L3"
    by (simp_all add: L2_def L3_def)
  have "split_lines (main cordic sqrtf_lib string_buff) = [A1, A2, A3, [], L1, L2, L3, []]"
    unfolding stream
    by (simp add: split_lines_line n1 n2 n3)
  then show ?thesis
    unfolding A1_def A2_def A3_def L1_def L2_def L3_def s1_def s2_def r_def .
qed

lemma q31_to_float_half: "q31_to_float 0x40000000 = Finite False (2 ^ 148)"
proof -
  have "sint (0x40000000 :: 32 word) = 1073741824" by simp
  moreover have "int_to_float 1073741824 = Finite False (2 ^ 179)"
    by (simp add: int_to_float_def round_eval)
  moreover have "int_to_float 0x80000000 = Finite False (2 ^ 180)"
    by (simp add: int_to_float_def round_eval)
  moreover have "fdiv (Finite False (2 ^ 179)) (Finite False (2 ^ 180)) = Finite False (2 ^ 148)"
    by (simp add: round_eval)
  ultimately show ?thesis by (simp only: q31_to_float_def)
qed

text \<open>A run in which the hardware returns \<open>2 ^ 30\<close>, the Q31 encoding of 0.5.\<close>

theorem C8_report_lines_witness:
  "split_lines (main (\<lambda>operand. 0x40000000) sqrtf []) =
    [[CHR 0x1B] @ ''[2J'' @ [CHR 0x1B] @ ''[;H'' @
       ''==============================================================='' @ [CHR 0x0D],
     ''XMC MCU: MATH SQRT example'' @ [CHR 0x0D],
     ''==============================================================='' @ [CHR 0x0D],
     [],
     ''Sqr_root_CORDIC_Q31 = 1073741824 '' @ [CHR 0x0D],
     ''Sqr_root_CORDIC_float = 0.500'' @ [CHR 0x0D],
     ''Sqr_root_Software_float = 0.500'' @ [CHR 0x0D],
     []]"
proof -
  have 1: "printf_d (sint (0x40000000 :: 32 word)) = ''1073741824''"
    by (simp add: printf_eval)
  have 2: "float_to_string [] STRING_BUF_SIZE (q31_to_float 0x40000000) = ''0.500''"
    unfolding q31_to_float_half float_to_string_half by (simp add: STRING_BUF_SIZE_def snprintf_def)
  have 3: "float_to_string [] STRING_BUF_SIZE (sqrtf INPUT_NUM) = ''0.500''"
    unfolding sqrtf_INPUT_NUM float_to_string_half by (simp add: STRING_BUF_SIZE_def snprintf_def)
  show ?thesis
    using C8_report_lines [of "\<lambda>operand. 0x40000000" sqrtf "[]"]
    unfolding 1 2 3 by (simp only: append_assoc append_Cons append_Nil)
qed

subsection \<open>Scaling by powers of two\<close>

lemma bitlen_div_pow2: "bitlen (n div 2 ^ i) = bitlen n - i"
proof (rule antisym)
  have "n < 2 ^ bitlen n" by (rule bitlen_less)
  also have "\<dots> \<le> 2 ^ (bitlen n - i + i)" by (rule power_increasing) simp_all
  finally have "n < 2 ^ (bitlen n - i) * 2 ^ i" by (simp only: power_add)
  then have "n div 2 ^ i < 2 ^ (bitlen n - i)"
    by (simp only: div_less_iff_less_mult zero_less_power zero_less_numeral)
  then show "bitlen (n div 2 ^ i) \<le> bitlen n - i" by (simp only: bitlen_le_iff)
next
  have "n div 2 ^ i < 2 ^ bitlen (n div 2 ^ i)" by (rule bitlen_less)
  then have "n < 2 ^ bitlen (n div 2 ^ i) * 2 ^ i"
    by (simp only: div_less_iff_less_mult zero_less_power zero_less_numeral)
  then have "n < 2 ^ (bitlen (n div 2 ^ i) + i)" by (simp only: power_add)
  then have "bitlen n \<le> bitlen (n div 2 ^ i) + i" by (simp only: bitlen_le_iff)
  then show "bitlen n - i \<le> bitlen (n div 2 ^ i)" by simp
qed

lemma bitlen_mult_pow2:
  assumes "0 < n"
  shows "bitlen (n * 2 ^ i) = bitlen n + i"
proof -
  have "bitlen (n * 2 ^ i div 2 ^ i) = bitlen (n * 2 ^ i) - i" by (rule bitlen_div_pow2)
  then have 1: "bitlen n = bitlen (n * 2 ^ i) - i" by simp
  from assms have "0 < bitlen n" by (simp add: bitlen_pos)
  with 1 show ?thesis by simp
qed

lemma round_float_div_pow2:
  assumes q: "0 < q" and small: "p < 2 ^ 276 * q" and bits: "24 + i \<le> bitlen (p div q)"
  obtains k where "round_float s p (q * 2 ^ i) = Finite s k"
    and "round_float s p q = Finite s (k * 2 ^ i)"
proof -
  define j where "j = bitlen (p div q) - 24"
  define m where "m = round_even p (q * 2 ^ j)"
  from bits have ij: "i \<le> j" by (simp add: j_def)
  have qj: "0 < q * 2 ^ j" using q by simp
  have "p div q < 2 ^ bitlen (p div q)" by (rule bitlen_less)
  also have "\<dots> \<le> 2 ^ (24 + j)" by (rule power_increasing) (simp_all add: j_def)
  finally have "p < 2 ^ (24 + j) * q" using q by (simp only: div_less_iff_less_mult)
  then have "p \<le> 2 ^ 24 * (q * 2 ^ j)" by (simp add: power_add mult_ac)
  then have m24: "m \<le> 2 ^ 24" unfolding m_def using qj by (rule round_even_le [rotated])
  from small q have "p div q < 2 ^ 276" by (simp only: div_less_iff_less_mult)
  then have "bitlen (p div q) \<le> 276" by (simp only: bitlen_le_iff)
  then have "24 + j \<le> 276" by (simp add: j_def)
  then have "(2::nat) ^ (24 + j) \<le> 2 ^ 276" by (rule power_increasing) simp
  moreover from m24 have "m * 2 ^ j \<le> 2 ^ 24 * 2 ^ j" by (rule mult_le_mono1)
  then have "m * 2 ^ j \<le> 2 ^ (24 + j)" by (simp only: power_add)
  ultimately have k: "m * 2 ^ j \<le> 2 ^ 276" by (rule le_trans [rotated])
  have "(2::nat) ^ 276 < 2 ^ 277" by simp
  with k have no: "\<not> 2 ^ 277 \<le> m * 2 ^ j" by linarith
  then have 1: "round_float s p q = Finite s (m * 2 ^ j)"
    by (simp add: round_float_def Let_def j_def m_def)
  have "p div (q * 2 ^ i) = p div q div 2 ^ i" by (simp add: div_mult2_eq)
  then have e1: "bitlen (p div (q * 2 ^ i)) - 24 = j - i"
    by (simp add: bitlen_div_pow2 j_def)
  have "(2::nat) ^ i * 2 ^ (j - i) = 2 ^ j"
    using ij by (simp add: power_add [symmetric])
  then have e2: "q * 2 ^ i * 2 ^ (j - i) = q * 2 ^ j"
    by (simp only: mult.assoc)
  have "m * 2 ^ (j - i) \<le> m * 2 ^ j"
    by (intro mult_le_mono2 power_increasing) simp_all
  with no have no': "\<not> 2 ^ 277 \<le> m * 2 ^ (j - i)" by linarith
  have 2: "round_float s p (q * 2 ^ i) = Finite s (m * 2 ^ (j - i))"
    unfolding round_float_def Let_def e1 e2 m_def [symmetric] using no' by (simp only: if_False)
  have "(2::nat) ^ (j - i) * 2 ^ i = 2 ^ j"
    using ij by (simp add: power_add [symmetric])
  then have "m * 2 ^ (j - i) * 2 ^ i = m * 2 ^ j"
    by (simp only: mult.assoc)
  with 1 have "round_float s p q = Finite s (m * 2 ^ (j - i) * 2 ^ i)" by (simp only:)
  with 2 show thesis by (rule that)
qed

subsection \<open>C6: from Q31 to float\<close>

lemma int_to_float_two_to_31: "int_to_float 0x80000000 = Finite False (2 ^ 180)"
  by (simp add: int_to_float_def round_eval)

lemma q31_to_float_rounds:
  fixes a :: "32 word"
  defines "N \<equiv> nat \<bar>sint a\<bar>"
  obtains k where "q31_to_float a = Finite (sint a < 0) k"
    and "round_float (sint a < 0) (N * 2 ^ 149) (2 ^ 31) = Finite (sint a < 0) k"
    and "representable k"
proof (cases "N = 0")
  case True
  then have a: "sint a = 0" by (simp add: N_def)
  have "round_float False 0 q = Finite False 0" if "0 < q" for q
    using round_float_exact [OF that representable_0, of False] by simp
  then have "q31_to_float a = Finite (sint a < 0) 0"
    and "round_float (sint a < 0) (N * 2 ^ 149) (2 ^ 31) = Finite (sint a < 0) 0"
    by (simp_all add: q31_to_float_def a True int_to_float_0 int_to_float_two_to_31)
  then show thesis using representable_0 by (rule that)
next
  case False
  define s where "s = (sint a < 0)"
  have "- (2 ^ (LENGTH(32) - 1)) \<le> sint a" by (rule sint_ge)
  moreover have "sint a < 2 ^ (LENGTH(32) - 1)" by (rule sint_lt)
  ultimately have "N \<le> 2 ^ 31" by (simp add: N_def)
  then have "N * 2 ^ 149 \<le> 2 ^ 31 * 2 ^ 149" by (rule mult_le_mono1)
  then have small: "N * 2 ^ 149 < 2 ^ 276 * 1" by simp
  from False have "bitlen (N * 2 ^ 149) = bitlen N + 149" by (intro bitlen_mult_pow2) simp
  moreover from False have "0 < bitlen N" by (simp add: bitlen_pos)
  ultimately have bits: "24 + 31 \<le> bitlen (N * 2 ^ 149 div 1)" by simp
  obtain k where k1: "round_float s (N * 2 ^ 149) (1 * 2 ^ 31) = Finite s k"
    and k2: "round_float s (N * 2 ^ 149) 1 = Finite s (k * 2 ^ 31)"
    using round_float_div_pow2 [OF zero_less_one small bits] by blast
  from k1 have rep: "representable k" by (intro representable_round_float [of "1 * 2 ^ 31"]) simp_all
  have e: "k * 2 ^ 31 * 2 ^ 149 = k * 2 ^ 180" by simp
  have nz: "(2::nat) ^ 180 \<noteq> 0" by simp
  have "fdiv (Finite s (k * 2 ^ 31)) (Finite False (2 ^ 180))
      = round_float s (k * 2 ^ 31 * 2 ^ 149) (2 ^ 180)"
    using nz by (simp only: fdiv.simps if_False simp_thms)
  also have "\<dots> = Finite s k"
    unfolding e using rep by (intro round_float_exact) simp_all
  finally have "fdiv (Finite s (k * 2 ^ 31)) (Finite False (2 ^ 180)) = Finite s k" .
  moreover have "int_to_float (sint a) = Finite s (k * 2 ^ 31)"
    unfolding int_to_float_def N_def [symmetric] s_def [symmetric] by (rule k2)
  ultimately have 1: "q31_to_float a = Finite (sint a < 0) k"
    unfolding q31_to_float_def int_to_float_two_to_31 s_def by (simp only:)
  from k1 have 2: "round_float (sint a < 0) (N * 2 ^ 149) (2 ^ 31) = Finite (sint a < 0) k"
    by (simp add: s_def)
  from 1 2 rep show thesis by (rule that)
qed

lemma q31_to_float_16777217: "valof (q31_to_float 16777217) = 1 / 128"
proof -
  have "sint (16777217 :: 32 word) = 16777217" by simp
  moreover have "int_to_float 16777217 = Finite False (2 ^ 173)"
    by (simp add: int_to_float_def round_eval)
  moreover have "fdiv (Finite False (2 ^ 173)) (Finite False (2 ^ 180)) = Finite False (2 ^ 142)"
    by (simp add: round_eval)
  ultimately have "q31_to_float 16777217 = Finite False (2 ^ 142)"
    by (simp only: q31_to_float_def int_to_float_two_to_31)
  then show ?thesis by simp
qed

text \<open>
  C6, as amended. For every 32-bit signed integer \<open>a\<close>, \<^verbatim>\<open>q31_to_float\<close> returns the
  single-precision number nearest to \<open>a / 2147483648\<close>: the result is finite and is the
  quotient \<open>a / 2 ^ 31\<close> rounded once, to nearest with ties to even (the division itself is
  exact, the only rounding is that of \<open>a\<close> to 24 significant bits). It is within \<open>2 ^ -25\<close>
  of the quotient for every \<open>a\<close>, and equal to it whenever \<open>\<bar>a\<bar> \<le> 2 ^ 24\<close>.
\<close>

theorem C6_q31_to_float:
  fixes a :: "32 word"
  shows "q31_to_float a = round_float (sint a < 0) (nat \<bar>sint a\<bar> * 2 ^ 149) (2 ^ 31) \<and>
    is_finite (q31_to_float a) \<and> is_float32 (q31_to_float a) \<and>
    \<bar>valof (q31_to_float a) - real_of_int (sint a) / 2147483648\<bar> \<le> 1 / 2 ^ 25 \<and>
    (\<bar>sint a\<bar> \<le> 2 ^ 24 \<longrightarrow> valof (q31_to_float a) = real_of_int (sint a) / 2147483648)"
proof -
  define N where "N = nat \<bar>sint a\<bar>"
  define s where "s = (sint a < 0)"
  obtain k where q: "q31_to_float a = Finite s k"
    and r: "round_float s (N * 2 ^ 149) (2 ^ 31) = Finite s k"
    and rep: "representable k"
    unfolding N_def s_def by (rule q31_to_float_rounds)
  have "- (2 ^ (LENGTH(32) - 1)) \<le> sint a" by (rule sint_ge)
  moreover have "sint a < 2 ^ (LENGTH(32) - 1)" by (rule sint_lt)
  ultimately have N31: "N \<le> 2 ^ 31" by (simp add: N_def)
  define S where "S = real_of_int (sint a)"
  have a: "S = (if s then - real N else real N)"
    unfolding S_def N_def s_def by (simp del: of_int_sint)
  have exact: "k = N * 2 ^ 118" if "representable (N * 2 ^ 118)"
  proof -
    have "N * 2 ^ 149 = N * 2 ^ 118 * 2 ^ 31" by simp
    moreover have "round_float s (N * 2 ^ 118 * 2 ^ 31) (2 ^ 31) = Finite s (N * 2 ^ 118)"
      using that by (intro round_float_exact) simp_all
    ultimately show ?thesis using r by (simp only: float32.inject)
  qed
  have near: "k \<le> N * 2 ^ 118 + 2 ^ 124 \<and> N * 2 ^ 118 \<le> k + 2 ^ 124"
  proof (cases "N = 0 \<or> N = 2 ^ 31")
    case True
    then have "representable (N * 2 ^ 118)"
      using representable_pow2 [of 149] by auto
    then show ?thesis by (simp add: exact)
  next
    case False
    with N31 have "0 < N" "N < 2 ^ 31" by simp_all
    then have "bitlen N \<le> 31" by (simp only: bitlen_le_iff)
    have d: "N * 2 ^ 149 div 2 ^ 31 = N * 2 ^ 118" by simp
    have "bitlen (N * 2 ^ 118) = bitlen N + 118"
      using \<open>0 < N\<close> by (rule bitlen_mult_pow2)
    with \<open>bitlen N \<le> 31\<close> have "bitlen (N * 2 ^ 149 div 2 ^ 31) - 24 \<le> 125"
      unfolding d by simp
    then have J: "(2::nat) ^ (bitlen (N * 2 ^ 149 div 2 ^ 31) - 24) \<le> 2 ^ 125"
      by (rule power_increasing) simp
    from N31 have "N * 2 ^ 149 \<le> 2 ^ 31 * 2 ^ 149" by (rule mult_le_mono1)
    then have "N * 2 ^ 149 < 2 ^ 276 * 2 ^ 31" by simp
    then obtain k' where "round_float s (N * 2 ^ 149) (2 ^ 31) = Finite s k'"
      and "2 * (k' * 2 ^ 31) \<le> 2 * (N * 2 ^ 149) + 2 ^ 31 * 2 ^ (bitlen (N * 2 ^ 149 div 2 ^ 31) - 24)"
      and "2 * (N * 2 ^ 149) \<le> 2 * (k' * 2 ^ 31) + 2 ^ 31 * 2 ^ (bitlen (N * 2 ^ 149 div 2 ^ 31) - 24)"
      using round_float_error [of "2 ^ 31" "N * 2 ^ 149" s] by (metis zero_less_numeral zero_less_power)
    moreover from this(1) r have "k' = k" by simp
    moreover from J have "2 ^ 31 * (2::nat) ^ (bitlen (N * 2 ^ 149 div 2 ^ 31) - 24) \<le> 2 ^ 31 * 2 ^ 125"
      by (rule mult_le_mono2)
    ultimately have "2 * (k * 2 ^ 31) \<le> 2 * (N * 2 ^ 149) + 2 ^ 31 * 2 ^ 125"
      and "2 * (N * 2 ^ 149) \<le> 2 * (k * 2 ^ 31) + 2 ^ 31 * 2 ^ 125"
      by simp_all
    then show ?thesis by simp
  qed
  then have "real k \<le> real (N * 2 ^ 118 + 2 ^ 124)" and "real (N * 2 ^ 118) \<le> real (k + 2 ^ 124)"
    by (simp_all only: of_nat_le_iff)
  then have D: "\<bar>real k - real N * 2 ^ 118\<bar> \<le> 2 ^ 124" by simp
  have diff: "valof (q31_to_float a) - S / 2147483648
      = (if s then - (real k - real N * 2 ^ 118) else real k - real N * 2 ^ 118) / 2 ^ 149"
    by (simp add: q a field_simps)
  have "\<bar>valof (q31_to_float a) - S / 2147483648\<bar>
      = \<bar>real k - real N * 2 ^ 118\<bar> / 2 ^ 149"
    unfolding diff by (simp add: abs_minus_commute)
  also have "\<dots> \<le> 2 ^ 124 / 2 ^ 149" using D by (rule divide_right_mono) simp
  also have "\<dots> = 1 / 2 ^ 25" by simp
  finally have 4: "\<bar>valof (q31_to_float a) - real_of_int (sint a) / 2147483648\<bar> \<le> 1 / 2 ^ 25"
    unfolding S_def .
  have 5: "valof (q31_to_float a) = S / 2147483648" if "\<bar>sint a\<bar> \<le> 2 ^ 24"
  proof -
    from that have "N \<le> 2 ^ 24" by (simp add: N_def)
    then have "representable (N * 2 ^ 118)"
      by (intro representableI [of _ N 118]) simp_all
    then have "k = N * 2 ^ 118" by (rule exact)
    then have "real k - real N * 2 ^ 118 = 0" by simp
    then have "valof (q31_to_float a) - S / 2147483648 = 0" unfolding diff by simp
    then show ?thesis by simp
  qed
  have 1: "q31_to_float a = round_float (sint a < 0) (nat \<bar>sint a\<bar> * 2 ^ 149) (2 ^ 31)"
    unfolding q r N_def [symmetric] s_def [symmetric] ..
  from q rep have 2: "is_finite (q31_to_float a)" and 3: "is_float32 (q31_to_float a)"
    by simp_all
  from 1 2 3 4 5 [unfolded S_def] show ?thesis by blast
qed

theorem C6_q31_to_float_witness:
  "\<bar>sint (3 :: 32 word)\<bar> \<le> 2 ^ 24 \<and> valof (q31_to_float 3) = real_of_int (sint (3 :: 32 word)) / 2147483648"
proof -
  have "\<bar>sint (3 :: 32 word)\<bar> \<le> 2 ^ 24" by simp
  with C6_q31_to_float [of 3] show ?thesis by blast
qed

text \<open>
  C6 as stated, with equality for every \<open>a\<close>, fails: for \<open>a = 16777217 = 2 ^ 24 + 1\<close> the
  conversion to \<^verbatim>\<open>float\<close> rounds \<open>a\<close> to \<open>2 ^ 24\<close>, and the result is \<open>1 / 128\<close>.
\<close>

theorem C6_counterexample:
  "sint (16777217 :: 32 word) = 16777217 \<and> valof (q31_to_float 16777217) = 1 / 128 \<and>
   valof (q31_to_float 16777217) \<noteq> real_of_int (sint (16777217 :: 32 word)) / 2147483648"
proof -
  have 1: "sint (16777217 :: 32 word) = 16777217" by simp
  have 2: "valof (q31_to_float 16777217) = 1 / 128" by (rule q31_to_float_16777217)
  have "(1::real) / 128 \<noteq> 16777217 / 2147483648" by simp
  then have 3: "valof (q31_to_float 16777217) \<noteq> real_of_int (sint (16777217 :: 32 word)) / 2147483648"
    unfolding 1 2 by (simp del: of_int_sint)
  from 1 2 3 show ?thesis by blast
qed

subsection \<open>Values, truncation and exact scaling\<close>

lemma representable_scale:
  assumes "representable k" and "k * 2 ^ i < 2 ^ 277"
  shows "representable (k * 2 ^ i)"
proof (cases "k = 0")
  case True
  then show ?thesis by simp
next
  case False
  then have "bitlen (k * 2 ^ i) = bitlen k + i" by (intro bitlen_mult_pow2) simp
  then have "bitlen (k * 2 ^ i) - 24 \<le> (bitlen k - 24) + i" by simp
  then have "(2::nat) ^ (bitlen (k * 2 ^ i) - 24) dvd 2 ^ ((bitlen k - 24) + i)"
    by (rule le_imp_power_dvd)
  moreover from assms(1) have "2 ^ (bitlen k - 24) * 2 ^ i dvd k * 2 ^ i"
    by (intro mult_dvd_mono) (simp_all add: representable_def)
  ultimately have "2 ^ (bitlen (k * 2 ^ i) - 24) dvd k * 2 ^ i"
    by (simp only: power_add) (rule dvd_trans)
  with assms(2) show ?thesis by (simp add: representable_def)
qed

lemma fmul_pow2:
  assumes "representable k" and "k * 2 ^ i < 2 ^ 277"
  shows "fmul (Finite s k) (Finite False (2 ^ i * 2 ^ 149)) = Finite s (k * 2 ^ i)"
proof -
  have "fmul (Finite s k) (Finite False (2 ^ i * 2 ^ 149))
      = round_float s (k * (2 ^ i * 2 ^ 149)) (2 ^ 149)"
    by (simp only: fmul.simps simp_thms)
  also have "k * (2 ^ i * 2 ^ 149) = k * 2 ^ i * 2 ^ 149" by (simp only: mult.assoc)
  also have "round_float s (k * 2 ^ i * 2 ^ 149) (2 ^ 149) = Finite s (k * 2 ^ i)"
    using representable_scale [OF assms] by (intro round_float_exact) simp_all
  finally show ?thesis .
qed

lemma floor_units: "\<lfloor>real R / 2 ^ 149\<rfloor> = int (R div 2 ^ 149)"
  by (metis (no_types, lifting) floor_divide_of_nat_eq of_nat_1 of_nat_add
    of_nat_power one_add_one)

lemma truncate_valof:
  "truncate (valof (Finite s R)) = (if s then - int (R div 2 ^ 149) else int (R div 2 ^ 149))"
proof (cases "s \<and> 0 < R")
  case True
  then have "valof (Finite s R) < 0" by simp
  moreover have "- valof (Finite s R) = real R / 2 ^ 149" using True by simp
  ultimately show ?thesis using True by (simp only: truncate_def floor_units if_True)
next
  case False
  then have "\<not> valof (Finite s R) < 0" by (auto simp: not_less)
  moreover have "\<lfloor>valof (Finite s R)\<rfloor> = (if s then - int (R div 2 ^ 149) else int (R div 2 ^ 149))"
  proof (cases s)
    case True
    with False have "R = 0" by simp
    with True show ?thesis by simp
  next
    case False
    then have "valof (Finite s R) = real R / 2 ^ 149" by simp
    with False show ?thesis by (simp only: floor_units if_False)
  qed
  ultimately show ?thesis by (simp only: truncate_def if_False)
qed

lemma float_to_int16_small:
  assumes "R div 2 ^ 149 \<le> 32767"
  shows "sint (scast (float_to_int16 (Finite s R)) :: 32 word)
    = (if s then - int (R div 2 ^ 149) else int (R div 2 ^ 149))"
proof -
  define t where "t = int (R div 2 ^ 149)"
  from assms have t: "0 \<le> t" "t \<le> 32767" by (simp_all add: t_def)
  define i where "i = (if s then - t else t)"
  from t have i: "- (2 ^ 15) \<le> i" "i < 2 ^ 15" by (simp_all add: i_def)
  from t have "(if s then max (- (2 ^ 31)) (- t) else min (2 ^ 31 - 1) t) = i"
    by (simp add: i_def)
  then have "float_to_int32 (Finite s R) = word_of_int i"
    by (simp only: float_to_int32_def float32.case t_def)
  then have "float_to_int16 (Finite s R) = word_of_int i"
    by (simp only: float_to_int16_def ucast_word_of_int_32_16)
  moreover have "sint (word_of_int i :: 16 word) = i"
    using i by (simp add: sint_sbintrunc' signed_take_bit_int_eq_self)
  ultimately show ?thesis by (simp only: sint_scast_16_32 i_def t_def)
qed

subsection \<open>C5: from float to Q15\<close>

lemma int_to_float_two_to_15: "int_to_float 0x8000 = Finite False (2 ^ 15 * 2 ^ 149)"
  by (simp add: int_to_float_def round_eval)

lemma float_literal_half: "float_literal 5 10 = Finite False (2 ^ 148)"
  by (simp add: float_literal_def round_eval)

lemma representable_q15_bound: "representable (65535 * 2 ^ 148)"
  by (rule representableI [of _ 65535 148]) simp_all

lemma round_sum_q15:
  assumes "p \<le> 65535 * 2 ^ 148"
  obtains R where "round_float s p 1 = Finite s R" and "R \<le> 65535 * 2 ^ 148"
    and "2 * \<bar>int R - int p\<bar> \<le> 2 ^ 140"
proof -
  from assms have le: "p \<le> 65535 * 2 ^ 148 * 1" by simp
  obtain R where R: "round_float s p 1 = Finite s R" and RM: "R \<le> 65535 * 2 ^ 148"
    using round_float_le [OF zero_less_one representable_q15_bound le, of s] by blast
  from assms have "p < 2 ^ 164" by simp
  then have "bitlen (p div 1) \<le> 164" by (simp add: bitlen_le_iff)
  then have "bitlen (p div 1) - 24 \<le> 140" by simp
  then have j: "(2::nat) ^ (bitlen (p div 1) - 24) \<le> 2 ^ 140"
    by (rule power_increasing) simp
  from assms have "p < 2 ^ 276 * 1" by simp
  then obtain R' where "round_float s p 1 = Finite s R'"
    and "2 * (R' * 1) \<le> 2 * p + 1 * 2 ^ (bitlen (p div 1) - 24)"
    and "2 * p \<le> 2 * (R' * 1) + 1 * 2 ^ (bitlen (p div 1) - 24)"
    using round_float_error [OF zero_less_one, of p s] by blast
  moreover from this(1) R have "R' = R" by simp
  ultimately have "2 * R \<le> 2 * p + 2 ^ 140" and "2 * p \<le> 2 * R + 2 ^ 140"
    using j by simp_all
  then have "int (2 * R) \<le> int (2 * p + 2 ^ 140)" and "int (2 * p) \<le> int (2 * R + 2 ^ 140)"
    by (simp_all only: of_nat_le_iff)
  then have "2 * int R \<le> 2 * int p + 2 ^ 140" and "2 * int p \<le> 2 * int R + 2 ^ 140"
    by simp_all
  then have "2 * \<bar>int R - int p\<bar> \<le> 2 ^ 140" by simp
  with R RM show thesis by (rule that)
qed

lemma fadd_half:
  assumes s: "s \<longrightarrow> V \<le> 2 ^ 164" and ns: "\<not> s \<longrightarrow> V \<le> 32767 * 2 ^ 149"
  shows "\<exists>s' R. fadd (Finite s V) (Finite False (2 ^ 148)) = Finite s' R \<and>
    R \<le> 65535 * 2 ^ 148 \<and>
    2 * \<bar>(if s' then - int R else int R) - ((if s then - int V else int V) + 2 ^ 148)\<bar> \<le> 2 ^ 140"
proof (cases s)
  case False
  with ns have "V + 2 ^ 148 \<le> 65535 * 2 ^ 148" by simp
  then obtain R where "round_float False (V + 2 ^ 148) 1 = Finite False R"
    and "R \<le> 65535 * 2 ^ 148" and "2 * \<bar>int R - int (V + 2 ^ 148)\<bar> \<le> 2 ^ 140"
    by (rule round_sum_q15)
  with False show ?thesis by (intro exI [of _ False] exI [of _ R]) simp
next
  case True
  with s have V: "V \<le> 2 ^ 164" by simp
  consider "V = 2 ^ 148" | "2 ^ 148 < V" | "V < 2 ^ 148" by linarith
  then show ?thesis
  proof cases
    case 1
    with True show ?thesis by (intro exI [of _ False] exI [of _ 0]) simp
  next
    case 2
    from V have "V - 2 ^ 148 \<le> 65535 * 2 ^ 148" by simp
    then obtain R where "round_float True (V - 2 ^ 148) 1 = Finite True R"
      and "R \<le> 65535 * 2 ^ 148" and "2 * \<bar>int R - int (V - 2 ^ 148)\<bar> \<le> 2 ^ 140"
      by (rule round_sum_q15)
    with True 2 show ?thesis
      by (intro exI [of _ True] exI [of _ R]) (simp add: of_nat_diff)
  next
    case 3
    then have "2 ^ 148 - V \<le> 65535 * 2 ^ 148" by simp
    then obtain R where "round_float False (2 ^ 148 - V) 1 = Finite False R"
      and "R \<le> 65535 * 2 ^ 148" and "2 * \<bar>int R - int (2 ^ 148 - V)\<bar> \<le> 2 ^ 140"
      by (rule round_sum_q15)
    with True 3 show ?thesis
      by (intro exI [of _ False] exI [of _ R]) (simp add: of_nat_diff)
  qed
qed

lemma valof_signed:
  "valof (Finite s R) = real_of_int (if s then - int R else int R) / 2 ^ 149"
  by simp

lemma float_to_q15_rounds_up:
  "sint (float_to_q15 (Finite False (16777215 * 2 ^ 109))) = 1"
proof -
  have "fmul (Finite False (16777215 * 2 ^ 109)) (Finite False (2 ^ 15 * 2 ^ 149))
      = Finite False (16777215 * 2 ^ 124)"
    by (simp add: round_eval)
  moreover have "fadd (Finite False (16777215 * 2 ^ 124)) (Finite False (2 ^ 148)) = Finite False (2 ^ 149)"
    by (simp add: round_eval)
  moreover have "float_to_int32 (Finite False (2 ^ 149)) = 1"
    by (simp add: float_to_int32_def)
  moreover have "sint (scast (ucast (1 :: 32 word) :: 16 word) :: 32 word) = 1"
    by simp
  ultimately show ?thesis
    by (simp only: float_to_q15_def float_to_int16_def int_to_float_two_to_15 float_literal_half)
qed

lemma float_to_q15_wraps:
  "sint (float_to_q15 (Finite False (16777215 * 2 ^ 125))) = - 32768"
proof -
  have "fmul (Finite False (16777215 * 2 ^ 125)) (Finite False (2 ^ 15 * 2 ^ 149))
      = Finite False (16777215 * 2 ^ 140)"
    by (simp add: round_eval)
  moreover have "fadd (Finite False (16777215 * 2 ^ 140)) (Finite False (2 ^ 148)) = Finite False (65537 * 2 ^ 148)"
    by (simp add: round_eval)
  moreover have "float_to_int32 (Finite False (65537 * 2 ^ 148)) = 32768"
    by (simp add: float_to_int32_def)
  moreover have "sint (scast (ucast (32768 :: 32 word) :: 16 word) :: 32 word) = - 32768"
    by simp
  ultimately show ?thesis
    by (simp only: float_to_q15_def float_to_int16_def int_to_float_two_to_15 float_literal_half)
qed

text \<open>
  C5, as amended. Let \<open>x\<close> be a finite single-precision value in the range of Q15, from
  \<open>-1\<close> to \<open>32767 / 32768\<close>. The product \<^verbatim>\<open>a * 0x8000\<close> is exact, the sum with the bias
  \<^verbatim>\<open>0.5F\<close> is a finite single-precision number within \<open>2 ^ -10\<close> of \<open>x * 32768 + 0.5\<close> (it
  is that sum rounded to nearest), and \<^verbatim>\<open>float_to_q15\<close> returns this rounded sum truncated
  toward zero: the bias is added, in single precision, before the truncation. The result
  lies between -32767 and 32767, so that the cast to \<^verbatim>\<open>int16_t\<close> changes nothing.
\<close>

theorem C5_float_to_q15:
  assumes x: "is_float32 x" "is_finite x"
    and lo: "- 1 \<le> valof x" and hi: "valof x \<le> 32767 / 32768"
  shows "valof (fmul x (int_to_float 0x8000)) = valof x * 32768 \<and>
    is_finite (fadd (fmul x (int_to_float 0x8000)) (float_literal 5 10)) \<and>
    \<bar>valof (fadd (fmul x (int_to_float 0x8000)) (float_literal 5 10))
       - (valof x * 32768 + 1 / 2)\<bar> \<le> 1 / 1024 \<and>
    sint (float_to_q15 x)
      = truncate (valof (fadd (fmul x (int_to_float 0x8000)) (float_literal 5 10))) \<and>
    - 32767 \<le> sint (float_to_q15 x) \<and> sint (float_to_q15 x) \<le> 32767"
proof -
  from x(2) obtain s k where xk: "x = Finite s k" by (cases x) simp_all
  with x(1) have rep: "representable k" by simp
  define V where "V = k * 2 ^ 15"
  have neg: "V \<le> 2 ^ 164" if s
  proof -
    from lo that have "real k / 2 ^ 149 \<le> 1" by (simp add: xk)
    then have "real k \<le> real (2 ^ 149)" by simp
    then have "k \<le> 2 ^ 149" by (simp only: of_nat_le_iff)
    then have "k * 2 ^ 15 \<le> 2 ^ 149 * 2 ^ 15" by (rule mult_le_mono1)
    then show ?thesis by (simp add: V_def)
  qed
  have pos: "V \<le> 32767 * 2 ^ 149" if "\<not> s"
  proof -
    from hi that have "real k / 2 ^ 149 \<le> 32767 / 32768" by (simp add: xk)
    then have "real k * 32768 \<le> 32767 * 2 ^ 149" by (simp add: field_simps)
    then have "real (k * 2 ^ 15) \<le> real (32767 * 2 ^ 149)" by simp
    then show ?thesis unfolding V_def by (simp only: of_nat_le_iff)
  qed
  from neg pos have "V \<le> 2 ^ 164" by (cases s) simp_all
  then have "k * 2 ^ 15 < 2 ^ 277" by (simp add: V_def)
  with rep have P: "fmul x (int_to_float 0x8000) = Finite s V"
    unfolding xk int_to_float_two_to_15 V_def by (rule fmul_pow2)
  from neg pos obtain s' R
    where y: "fadd (Finite s V) (Finite False (2 ^ 148)) = Finite s' R"
      and R: "R \<le> 65535 * 2 ^ 148"
      and err: "2 * \<bar>(if s' then - int R else int R) - ((if s then - int V else int V) + 2 ^ 148)\<bar> \<le> 2 ^ 140"
    using fadd_half [of s V] by blast
  have Y: "fadd (fmul x (int_to_float 0x8000)) (float_literal 5 10) = Finite s' R"
    unfolding P float_literal_half by (rule y)
  define ry where "ry = (if s' then - int R else int R)"
  define e where "e = (if s then - int V else int V) + 2 ^ 148"
  from err have "\<bar>ry - e\<bar> \<le> 2 ^ 139" by (simp add: ry_def e_def)
  then have "\<bar>real_of_int (ry - e)\<bar> \<le> real_of_int (2 ^ 139)"
    by (simp only: of_int_abs [symmetric] of_int_le_iff)
  then have bound: "\<bar>real_of_int (ry - e)\<bar> / 2 ^ 149 \<le> 2 ^ 139 / 2 ^ 149"
    by (intro divide_right_mono) simp_all
  have 1: "valof (fmul x (int_to_float 0x8000)) = valof x * 32768"
    unfolding P by (simp add: xk V_def)
  have "valof x * 32768 + 1 / 2 = real_of_int e / 2 ^ 149"
    by (simp add: xk e_def V_def field_simps)
  moreover have "valof (Finite s' R) = real_of_int ry / 2 ^ 149"
    unfolding ry_def by (rule valof_signed)
  ultimately have "valof (Finite s' R) - (valof x * 32768 + 1 / 2)
      = real_of_int ry / 2 ^ 149 - real_of_int e / 2 ^ 149"
    by (simp only:)
  also have "\<dots> = real_of_int (ry - e) / 2 ^ 149"
    by (simp only: of_int_diff diff_divide_distrib)
  finally have "\<bar>valof (Finite s' R) - (valof x * 32768 + 1 / 2)\<bar>
      = \<bar>real_of_int (ry - e) / 2 ^ 149\<bar>"
    by (simp only:)
  also have "\<dots> = \<bar>real_of_int (ry - e)\<bar> / 2 ^ 149" by simp
  also have "\<dots> \<le> 2 ^ 139 / 2 ^ 149" by (rule bound)
  also have "\<dots> = (1::real) / 1024" by simp
  finally have 3: "\<bar>valof (Finite s' R) - (valof x * 32768 + 1 / 2)\<bar> \<le> 1 / 1024" .
  from R have "R < 32768 * 2 ^ 149" by simp
  then have "R div 2 ^ 149 < 32768"
    by (simp only: div_less_iff_less_mult zero_less_power zero_less_numeral)
  then have t: "R div 2 ^ 149 \<le> 32767" by simp
  have q: "sint (float_to_q15 x) = (if s' then - int (R div 2 ^ 149) else int (R div 2 ^ 149))"
    unfolding float_to_q15_def Y using t by (rule float_to_int16_small)
  then have 4: "sint (float_to_q15 x) = truncate (valof (Finite s' R))"
    by (simp only: truncate_valof)
  from q t have 5: "- 32767 \<le> sint (float_to_q15 x)" "sint (float_to_q15 x) \<le> 32767"
    by (simp_all split: if_splits)
  from 1 3 4 5 show ?thesis unfolding Y by simp
qed

theorem C5_float_to_q15_witness:
  "is_float32 (Finite True (2 ^ 147)) \<and> is_finite (Finite True (2 ^ 147)) \<and>
   - 1 \<le> valof (Finite True (2 ^ 147)) \<and> valof (Finite True (2 ^ 147)) \<le> 32767 / 32768 \<and>
   valof (fmul (Finite True (2 ^ 147)) (int_to_float 0x8000)) = valof (Finite True (2 ^ 147)) * 32768 \<and>
   sint (float_to_q15 (Finite True (2 ^ 147)))
     = truncate (valof (fadd (fmul (Finite True (2 ^ 147)) (int_to_float 0x8000)) (float_literal 5 10)))"
proof -
  have 1: "is_float32 (Finite True (2 ^ 147))" using representable_pow2 [of 147] by simp
  have 2: "is_finite (Finite True (2 ^ 147))" by simp
  have 3: "- 1 \<le> valof (Finite True (2 ^ 147))" by simp
  have 4: "valof (Finite True (2 ^ 147)) \<le> 32767 / 32768" by simp
  from 1 2 3 4 C5_float_to_q15 [OF 1 2 3 4] show ?thesis by blast
qed

text \<open>
  C5 as stated, with the sum \<open>x * 32768 + 0.5\<close> taken exactly and for every \<open>x\<close> below 1,
  fails. For \<open>x = 2 ^ -16 - 2 ^ -40\<close> the sum is just below 1 and truncates to 0, but in
  single precision it rounds to 1 and \<^verbatim>\<open>float_to_q15\<close> returns 1. For \<open>x = 1 - 2 ^ -24\<close> the
  truncated sum is 32768, which \<^verbatim>\<open>int16_t\<close> does not hold: the result is -32768.
\<close>

theorem C5_counterexample:
  "is_float32 (Finite False (16777215 * 2 ^ 109)) \<and>
   valof (Finite False (16777215 * 2 ^ 109)) = 1 / 2 ^ 16 - 1 / 2 ^ 40 \<and>
   truncate (valof (Finite False (16777215 * 2 ^ 109)) * 32768 + 1 / 2) = 0 \<and>
   sint (float_to_q15 (Finite False (16777215 * 2 ^ 109))) = 1 \<and>
   is_float32 (Finite False (16777215 * 2 ^ 125)) \<and>
   valof (Finite False (16777215 * 2 ^ 125)) = 1 - 1 / 2 ^ 24 \<and>
   truncate (valof (Finite False (16777215 * 2 ^ 125)) * 32768 + 1 / 2) = 32768 \<and>
   sint (float_to_q15 (Finite False (16777215 * 2 ^ 125))) = - 32768"
proof -
  have 1: "is_float32 (Finite False (16777215 * 2 ^ 109))"
    using representableI [of "16777215 * 2 ^ 109" 16777215 109] by simp
  have 2: "valof (Finite False (16777215 * 2 ^ 109)) = 1 / 2 ^ 16 - 1 / 2 ^ 40" by simp
  have 3: "truncate (valof (Finite False (16777215 * 2 ^ 109)) * 32768 + 1 / 2) = 0"
    unfolding 2 by (simp add: truncate_def)
  have 5: "is_float32 (Finite False (16777215 * 2 ^ 125))"
    using representableI [of "16777215 * 2 ^ 125" 16777215 125] by simp
  have 6: "valof (Finite False (16777215 * 2 ^ 125)) = 1 - 1 / 2 ^ 24" by simp
  have 7: "truncate (valof (Finite False (16777215 * 2 ^ 125)) * 32768 + 1 / 2) = 32768"
    unfolding 6 by (simp add: truncate_def)
  from 1 2 3 float_to_q15_rounds_up 5 6 7 float_to_q15_wraps show ?thesis by blast
qed

subsection \<open>Sums that round back to a summand\<close>

lemma round_float_absorb:
  assumes V: "representable V" and d: "2 * d < 2 ^ (bitlen V - 24)" and b: "24 \<le> bitlen V"
  shows "round_float s (V + d) 1 = Finite s V"
proof -
  define j where "j = bitlen V - 24"
  from V have "2 ^ j dvd V" and V277: "V < 2 ^ 277" by (simp_all add: representable_def j_def)
  then obtain c where c: "V = c * 2 ^ j" by (auto simp: dvd_def mult.commute)
  from d have dj: "d < 2 ^ j" by (simp add: j_def)
  have "V < 2 ^ bitlen V" by (rule bitlen_less)
  also from b have "bitlen V = 24 + j" by (simp add: j_def)
  finally have "c * 2 ^ j < 2 ^ 24 * 2 ^ j" by (simp only: c power_add)
  then have "c < 2 ^ 24" by (simp only: mult_less_cancel2)
  then have "c + 1 \<le> 2 ^ 24" by simp
  then have "(c + 1) * 2 ^ j \<le> 2 ^ 24 * 2 ^ j" by (rule mult_le_mono1)
  then have "V + 2 ^ j \<le> 2 ^ (24 + j)" by (simp add: c power_add)
  with dj have "V + d < 2 ^ (24 + j)" by simp
  then have "bitlen (V + d) \<le> 24 + j" by (simp only: bitlen_le_iff)
  moreover have "bitlen V \<le> bitlen (V + d)" by (rule bitlen_mono) simp
  ultimately have bl: "bitlen (V + d) - 24 = j" using b by (simp add: j_def)
  have dv: "(V + d) div 2 ^ j = c" and md: "(V + d) mod 2 ^ j = d"
    using dj by (simp_all add: c)
  from d have "2 * d < 2 ^ j" by (simp add: j_def)
  then have "round_even (V + d) (2 ^ j) = c"
    by (simp add: round_even_def Let_def dv md)
  then have re: "round_even (V + d) (1 * 2 ^ j) = c" by simp
  from V277 have no: "\<not> 2 ^ 277 \<le> c * 2 ^ j" by (simp add: c)
  have "round_float s (V + d) 1 = (if 2 ^ 277 \<le> c * 2 ^ j then Infinity s else Finite s (c * 2 ^ j))"
    unfolding round_float_def Let_def div_by_1 bl re ..
  with no show ?thesis by (simp only: if_False c)
qed

lemma representable_le_pow2:
  assumes "representable V" and "V < 2 ^ (24 + i)"
  shows "V + 2 ^ i \<le> 2 ^ (24 + i)"
proof (cases "V < 2 ^ (23 + i)")
  case True
  have "(2::nat) ^ i \<le> 2 ^ (23 + i)" by (rule power_increasing) simp_all
  moreover have "(2::nat) ^ (24 + i) = 2 ^ (23 + i) + 2 ^ (23 + i)" by (simp add: power_add)
  ultimately show ?thesis using True by linarith
next
  case False
  then have "\<not> bitlen V \<le> 23 + i" using bitlen_le_iff [of V "23 + i"] by blast
  moreover from assms(2) have "bitlen V \<le> 24 + i" by (simp only: bitlen_le_iff)
  ultimately have "bitlen V - 24 = i" by simp
  with assms(1) have "2 ^ i dvd V" by (simp add: representable_def)
  then obtain c where c: "V = c * 2 ^ i" by (auto simp: dvd_def mult.commute)
  from assms(2) have "c * 2 ^ i < 2 ^ 24 * 2 ^ i" by (simp only: c power_add)
  then have "c < 2 ^ 24" by (simp only: mult_less_cancel2)
  then have "c + 1 \<le> 2 ^ 24" by simp
  then have "(c + 1) * 2 ^ i \<le> 2 ^ 24 * 2 ^ i" by (rule mult_le_mono1)
  then show ?thesis by (simp add: c power_add)
qed

lemma q31_to_float_exact:
  fixes a :: "32 word"
  assumes "representable (nat \<bar>sint a\<bar> * 2 ^ 118)"
  shows "q31_to_float a = Finite (sint a < 0) (nat \<bar>sint a\<bar> * 2 ^ 118)"
proof -
  obtain k where q: "q31_to_float a = Finite (sint a < 0) k"
    and r: "round_float (sint a < 0) (nat \<bar>sint a\<bar> * 2 ^ 149) (2 ^ 31) = Finite (sint a < 0) k"
    by (rule q31_to_float_rounds)
  have "nat \<bar>sint a\<bar> * 2 ^ 149 = nat \<bar>sint a\<bar> * 2 ^ 118 * 2 ^ 31" by simp
  moreover have "round_float (sint a < 0) (nat \<bar>sint a\<bar> * 2 ^ 118 * 2 ^ 31) (2 ^ 31)
      = Finite (sint a < 0) (nat \<bar>sint a\<bar> * 2 ^ 118)"
    using assms by (intro round_float_exact) simp_all
  ultimately have "k = nat \<bar>sint a\<bar> * 2 ^ 118" using r by (simp only: float32.inject)
  with q show ?thesis by (simp only:)
qed

subsection \<open>C2: the round trip through Q31\<close>

lemma representable_div_pow2:
  assumes V: "representable V" and dv: "2 ^ i dvd V"
  shows "representable (V div 2 ^ i)"
proof (cases "V = 0")
  case True
  then show ?thesis by simp
next
  case False
  define X where "X = V div 2 ^ i"
  from dv have VX: "V = X * 2 ^ i" by (simp add: X_def)
  with False have X0: "0 < X" by (cases "X = 0") simp_all
  then have bl: "bitlen V = bitlen X + i" unfolding VX by (rule bitlen_mult_pow2)
  from V have "X < 2 ^ 277"
    unfolding X_def by (meson div_le_dividend le_less_trans representable_def)
  moreover have "2 ^ (bitlen X - 24) dvd X"
  proof (cases "24 \<le> bitlen X")
    case True
    with bl have "bitlen V - 24 = (bitlen X - 24) + i" by simp
    with V have "2 ^ ((bitlen X - 24) + i) dvd X * 2 ^ i"
      by (simp add: representable_def VX [symmetric])
    then have "2 ^ (bitlen X - 24) * 2 ^ i dvd X * 2 ^ i" by (simp only: power_add)
    then show ?thesis by simp
  next
    case False
    then show ?thesis by simp
  qed
  ultimately show ?thesis by (simp add: representable_def X_def)
qed

lemma float_to_q31_units:
  assumes rep: "representable V" and lt: "V < 2 ^ 180"
  obtains R where "round_float False (V + 2 ^ 148) 1 = Finite False R"
    and "R div 2 ^ 149 < 2 ^ 31"
    and "representable (R div 2 ^ 149 * 2 ^ 118)"
    and "R div 2 ^ 149 * 2 ^ 149 \<le> V + 2 ^ 149"
    and "V \<le> R div 2 ^ 149 * 2 ^ 149 + 2 ^ 149"
proof (cases "2 ^ 173 \<le> V")
  case True
  then have "\<not> V < 2 ^ 173" by simp
  then have "\<not> bitlen V \<le> 173" using bitlen_le_iff [of V 173] by blast
  then have b: "174 \<le> bitlen V" by simp
  then have "150 \<le> bitlen V - 24" by simp
  then have p: "(2::nat) ^ 150 \<le> 2 ^ (bitlen V - 24)" by (rule power_increasing) simp
  then have "2 * 2 ^ 148 < (2::nat) ^ (bitlen V - 24)" by simp
  moreover from b have "24 \<le> bitlen V" by simp
  ultimately have R: "round_float False (V + 2 ^ 148) 1 = Finite False V"
    using rep by (intro round_float_absorb)
  have "(2::nat) ^ 149 dvd 2 ^ (bitlen V - 24)"
    using \<open>150 \<le> bitlen V - 24\<close> by (intro le_imp_power_dvd) simp
  moreover from rep have "2 ^ (bitlen V - 24) dvd V" by (simp add: representable_def)
  ultimately have d149: "2 ^ 149 dvd V" by (rule dvd_trans)
  then have n: "V div 2 ^ 149 * 2 ^ 149 = V" by simp
  from lt have "V < 2 ^ 31 * 2 ^ 149" by simp
  then have 2: "V div 2 ^ 149 < 2 ^ 31"
    by (simp only: div_less_iff_less_mult zero_less_power zero_less_numeral)
  have "(2::nat) ^ 31 dvd 2 ^ 149" by (rule le_imp_power_dvd) simp
  with d149 have "2 ^ 31 dvd V" by (rule dvd_trans [rotated])
  with rep have "representable (V div 2 ^ 31)" by (rule representable_div_pow2)
  moreover have "V div 2 ^ 149 * 2 ^ 118 = V div 2 ^ 31"
  proof -
    from d149 obtain c where c: "V = c * 2 ^ 149" by (auto simp: dvd_def mult.commute)
    have "c * 2 ^ 149 = c * 2 ^ 118 * 2 ^ 31" by simp
    then have "c * 2 ^ 149 div 2 ^ 31 = c * 2 ^ 118" by (simp only: div_mult_self_is_m zero_less_power zero_less_numeral)
    moreover have "c * 2 ^ 149 div 2 ^ 149 = c" by simp
    ultimately show ?thesis by (simp only: c)
  qed
  ultimately have 3: "representable (V div 2 ^ 149 * 2 ^ 118)" by (simp only:)
  from R 2 3 show thesis by (rule that) (simp_all only: n le_add1)
next
  case False
  then have V173: "V < 2 ^ (24 + 149)" by simp
  with rep have "V + 2 ^ 149 \<le> 2 ^ (24 + 149)" by (rule representable_le_pow2)
  then have W: "V + 2 ^ 148 < 2 ^ 173" by simp
  define W where "W = V + 2 ^ 148"
  have r173: "representable (2 ^ 173)" by (rule representable_pow2) simp
  from W have "W \<le> 2 ^ 173 * 1" by (simp add: W_def)
  then obtain R where R: "round_float False W 1 = Finite False R" and R173: "R \<le> 2 ^ 173"
    using round_float_le [OF zero_less_one r173, of W False] by blast
  from W have "W < 2 ^ 276 * 1" by (simp add: W_def)
  then obtain R' where "round_float False W 1 = Finite False R'"
    and "2 ^ (bitlen (W div 1) - 24) dvd R'"
    and "2 * (R' * 1) \<le> 2 * W + 1 * 2 ^ (bitlen (W div 1) - 24)"
    and "2 * W \<le> 2 * (R' * 1) + 1 * 2 ^ (bitlen (W div 1) - 24)"
    using round_float_error [OF zero_less_one, of W False] by blast
  moreover from this(1) R have "R' = R" by simp
  ultimately have dvdR: "2 ^ (bitlen W - 24) dvd R"
    and up: "2 * R \<le> 2 * W + 2 ^ (bitlen W - 24)"
    and dn: "2 * W \<le> 2 * R + 2 ^ (bitlen W - 24)"
    by simp_all
  define n where "n = R div 2 ^ 149"
  have nlo: "n * 2 ^ 149 \<le> R" by (simp add: n_def)
  have "R < (R div 2 ^ 149 + 1) * 2 ^ 149"
    by (metis Suc_eq_plus1 div_less_iff_less_mult lessI zero_less_numeral zero_less_power)
  then have nhi: "R < n * 2 ^ 149 + 2 ^ 149" by (simp add: n_def)
  from R173 have "R < 2 ^ 173 + 1" by simp
  from R173 have "R div 2 ^ 149 \<le> 2 ^ 173 div 2 ^ 149" by (rule div_le_mono)
  then have n24: "n \<le> 2 ^ 24" by (simp add: n_def)
  then have 2: "n < 2 ^ 31" by simp
  from n24 have "n * 2 ^ 118 \<le> 2 ^ 24 * 2 ^ 118" by (rule mult_le_mono1)
  then have "n * 2 ^ 118 < 2 ^ 277" by simp
  with n24 have 3: "representable (n * 2 ^ 118)"
    by (intro representableI [of _ n 118]) simp_all
  have "n * 2 ^ 149 \<le> V + 2 ^ 149 \<and> V \<le> n * 2 ^ 149 + 2 ^ 149"
  proof (cases "W < 2 ^ 172")
    case True
    then have "bitlen W \<le> 172" by (simp only: bitlen_le_iff)
    then have "bitlen W - 24 \<le> 148" by simp
    then have "(2::nat) ^ (bitlen W - 24) \<le> 2 ^ 148" by (rule power_increasing) simp
    with up dn have "2 * R \<le> 2 * W + 2 ^ 148" "2 * W \<le> 2 * R + 2 ^ 148" by simp_all
    with nlo nhi show ?thesis by (simp add: W_def)
  next
    case False
    then have "\<not> bitlen W \<le> 172" using bitlen_le_iff [of W 172] by blast
    moreover from W have "bitlen W \<le> 173" unfolding W_def by (simp only: bitlen_le_iff)
    ultimately have j: "bitlen W - 24 = 149" by simp
    from dvdR have "2 ^ 149 dvd R" by (simp only: j)
    then have "n * 2 ^ 149 = R" by (simp add: n_def)
    moreover from up dn have "2 * R \<le> 2 * W + 2 ^ 149" "2 * W \<le> 2 * R + 2 ^ 149"
      by (simp_all only: j)
    ultimately show ?thesis by (simp add: W_def)
  qed
  then have 4: "n * 2 ^ 149 \<le> V + 2 ^ 149" and 5: "V \<le> n * 2 ^ 149 + 2 ^ 149" by simp_all
  from R 2 3 4 5 show thesis unfolding W_def n_def by (rule that)
qed

lemma float_to_q31_round_trip:
  assumes rep: "representable k" and lt: "k < 2 ^ 149" and sg: "s \<longrightarrow> k = 0"
  obtains n where "q31_to_float (float_to_q31 (Finite s k)) = Finite False (n * 2 ^ 118)"
    and "sint (float_to_q31 (Finite s k)) = int n"
    and "n * 2 ^ 118 \<le> k + 2 ^ 118" and "k \<le> n * 2 ^ 118 + 2 ^ 118"
proof -
  define V where "V = k * 2 ^ 31"
  from lt have "k * 2 ^ 31 < 2 ^ 149 * 2 ^ 31" by (simp only: mult_less_cancel2) simp
  then have V180: "V < 2 ^ 180" by (simp add: V_def)
  then have "k * 2 ^ 31 < 2 ^ 277" by (simp add: V_def)
  with rep have "fmul (Finite s k) (Finite False (2 ^ 31 * 2 ^ 149)) = Finite s (k * 2 ^ 31)"
    by (rule fmul_pow2)
  moreover have "int_to_float 0x80000000 = Finite False (2 ^ 31 * 2 ^ 149)"
    unfolding int_to_float_two_to_31 by simp
  ultimately have P: "fmul (Finite s k) (int_to_float 0x80000000) = Finite s V"
    by (simp only: V_def)
  from rep have "representable (k * 2 ^ 31)"
    using \<open>k * 2 ^ 31 < 2 ^ 277\<close> by (rule representable_scale)
  then have repV: "representable V" by (simp only: V_def)
  from repV V180 obtain R where R: "round_float False (V + 2 ^ 148) 1 = Finite False R"
    and n31: "R div 2 ^ 149 < 2 ^ 31"
    and repn: "representable (R div 2 ^ 149 * 2 ^ 118)"
    and up: "R div 2 ^ 149 * 2 ^ 149 \<le> V + 2 ^ 149"
    and dn: "V \<le> R div 2 ^ 149 * 2 ^ 149 + 2 ^ 149"
    by (rule float_to_q31_units)
  define n where "n = R div 2 ^ 149"
  have "fadd (Finite s V) (Finite False (2 ^ 148)) = round_float False (V + 2 ^ 148) 1"
  proof (cases s)
    case True
    with sg have "V = 0" by (simp add: V_def)
    with True show ?thesis by simp
  next
    case False
    then show ?thesis by simp
  qed
  then have Y: "fadd (fmul (Finite s k) (int_to_float 0x80000000)) (float_literal 5 10) = Finite False R"
    unfolding P float_literal_half R .
  have q: "float_to_q31 (Finite s k) = float_to_int32 (Finite False R)"
    unfolding float_to_q31_def Y ..
  from n31 have S: "sint (float_to_q31 (Finite s k)) = int n"
    unfolding q n_def by (rule sint_float_to_int32_nonneg)
  then have "nat \<bar>sint (float_to_q31 (Finite s k))\<bar> = n"
    and "\<not> sint (float_to_q31 (Finite s k)) < 0" by simp_all
  moreover from this(1) repn
  have "representable (nat \<bar>sint (float_to_q31 (Finite s k))\<bar> * 2 ^ 118)"
    by (simp only: n_def)
  ultimately have 1: "q31_to_float (float_to_q31 (Finite s k)) = Finite False (n * 2 ^ 118)"
    using q31_to_float_exact [of "float_to_q31 (Finite s k)"] by (simp only:)
  have e: "n * 2 ^ 149 = n * 2 ^ 118 * 2 ^ 31" by simp
  have f: "k * 2 ^ 31 + 2 ^ 149 = (k + 2 ^ 118) * 2 ^ 31" by (simp add: algebra_simps)
  have g: "n * 2 ^ 149 + 2 ^ 149 = (n * 2 ^ 118 + 2 ^ 118) * 2 ^ 31" by (simp add: algebra_simps)
  from up have "n * 2 ^ 118 * 2 ^ 31 \<le> (k + 2 ^ 118) * 2 ^ 31"
    unfolding n_def [symmetric] V_def e f .
  then have 3: "n * 2 ^ 118 \<le> k + 2 ^ 118" by (simp only: mult_le_cancel2) simp
  from dn have "k * 2 ^ 31 \<le> (n * 2 ^ 118 + 2 ^ 118) * 2 ^ 31"
    unfolding n_def [symmetric] V_def g .
  then have 4: "k \<le> n * 2 ^ 118 + 2 ^ 118" by (simp only: mult_le_cancel2) simp
  from 1 S 3 4 show thesis by (rule that)
qed

text \<open>
  C2. For every single-precision \<open>x\<close> with \<open>0 \<le> x < 1\<close> the round trip
  \<^verbatim>\<open>q31_to_float(float_to_q31(x))\<close> is a finite number that differs from \<open>x\<close> by at most
  \<open>2 ^ -31\<close>. The Q31 value in between is not negative, so the conversion of the sum
  \<open>x * 2 ^ 31 + 0.5\<close> to \<^verbatim>\<open>int32_t\<close> stays in range.
\<close>

theorem C2_q31_round_trip:
  assumes x: "is_float32 x" "is_finite x"
    and lo: "0 \<le> valof x" and hi: "valof x < 1"
  shows "is_finite (q31_to_float (float_to_q31 x)) \<and>
    0 \<le> sint (float_to_q31 x) \<and>
    \<bar>valof (q31_to_float (float_to_q31 x)) - valof x\<bar> \<le> 1 / 2 ^ 31"
proof -
  from x(2) obtain s k where xk: "x = Finite s k" by (cases x) simp_all
  with x(1) have rep: "representable k" by simp
  have sg: "s \<longrightarrow> k = 0"
  proof
    assume s
    with lo have "0 \<le> - real k / 2 ^ 149" by (simp add: xk)
    then show "k = 0" by (simp add: field_simps)
  qed
  then have v: "valof x = real k / 2 ^ 149" by (auto simp: xk)
  with hi have "real k < real (2 ^ 149)" by simp
  then have lt: "k < 2 ^ 149" by (simp only: of_nat_less_iff)
  from rep lt sg obtain n
    where y: "q31_to_float (float_to_q31 x) = Finite False (n * 2 ^ 118)"
      and S: "sint (float_to_q31 x) = int n"
      and up: "n * 2 ^ 118 \<le> k + 2 ^ 118" and dn: "k \<le> n * 2 ^ 118 + 2 ^ 118"
    unfolding xk by (rule float_to_q31_round_trip)
  define m where "m = n * 2 ^ 118"
  from up have "real m \<le> real (k + 2 ^ 118)" unfolding m_def by (simp only: of_nat_le_iff)
  moreover from dn have "real k \<le> real (m + 2 ^ 118)" unfolding m_def by (simp only: of_nat_le_iff)
  ultimately have "\<bar>real m - real k\<bar> \<le> 2 ^ 118" by simp
  then have "\<bar>real m - real k\<bar> / 2 ^ 149 \<le> 2 ^ 118 / 2 ^ 149" by (rule divide_right_mono) simp
  moreover have "\<bar>real m / 2 ^ 149 - real k / 2 ^ 149\<bar> = \<bar>real m - real k\<bar> / 2 ^ 149"
    by (simp add: diff_divide_distrib [symmetric])
  moreover have "(2::real) ^ 118 / 2 ^ 149 = 1 / 2 ^ 31" by simp
  ultimately have "\<bar>real m / 2 ^ 149 - real k / 2 ^ 149\<bar> \<le> 1 / 2 ^ 31" by (simp only:)
  moreover have "valof (q31_to_float (float_to_q31 x)) = real m / 2 ^ 149"
    unfolding y m_def by simp
  ultimately have "\<bar>valof (q31_to_float (float_to_q31 x)) - valof x\<bar> \<le> 1 / 2 ^ 31"
    by (simp only: v)
  moreover have "is_finite (q31_to_float (float_to_q31 x))" unfolding y by simp
  moreover have "0 \<le> sint (float_to_q31 x)" unfolding S by simp
  ultimately show ?thesis by blast
qed

theorem C2_q31_round_trip_witness:
  "is_float32 (Finite False (8388609 * 2 ^ 118)) \<and> is_finite (Finite False (8388609 * 2 ^ 118)) \<and>
   0 \<le> valof (Finite False (8388609 * 2 ^ 118)) \<and> valof (Finite False (8388609 * 2 ^ 118)) < 1 \<and>
   \<bar>valof (q31_to_float (float_to_q31 (Finite False (8388609 * 2 ^ 118))))
      - valof (Finite False (8388609 * 2 ^ 118))\<bar> \<le> 1 / 2 ^ 31"
proof -
  have 1: "is_float32 (Finite False (8388609 * 2 ^ 118))"
    using representableI [of "8388609 * 2 ^ 118" 8388609 118] by simp
  have 2: "is_finite (Finite False (8388609 * 2 ^ 118))" by simp
  have 3: "0 \<le> valof (Finite False (8388609 * 2 ^ 118))" by simp
  have 4: "valof (Finite False (8388609 * 2 ^ 118)) < 1" by simp
  from 1 2 3 4 C2_q31_round_trip [OF 1 2 3 4] show ?thesis by blast
qed

end
